theory Spec2Isabelle
  imports Complex_Main "HOL-Library.Multiset"
begin

section \<open>Data model of \<^verbatim>\<open>main.js\<close>\<close>

text \<open>
  The solver keeps its problem in global variables (\<^verbatim>\<open>depot\<close>, \<^verbatim>\<open>destinations\<close>,
  \<^verbatim>\<open>numVehicles\<close>, \<^verbatim>\<open>vehicleCapacity\<close>, \<^verbatim>\<open>avgSpeed\<close>, \<^verbatim>\<open>fuelConsumption\<close>,
  \<^verbatim>\<open>distanceMatrix\<close>, \<^verbatim>\<open>timeMatrix\<close>). Here they are explicit arguments: a record
  \<open>problem\<close> for what \<^verbatim>\<open>loadFromJSONFile\<close> stores, and the two matrices that
  \<^verbatim>\<open>calculateDistanceMatrix\<close> receives from the routing service.

  JavaScript numbers are modelled as follows. A finite number is a \<open>real\<close> (rounding of
  IEEE doubles is not modelled). Where the source can produce \<^verbatim>\<open>undefined\<close> or
  \<^verbatim>\<open>NaN\<close> (a read past the end of a matrix row, a JSON field that is absent), the
  value is a \<open>jsval\<close>. Reading a property of \<^verbatim>\<open>undefined\<close> (a matrix row that does
  not exist) throws a \<^verbatim>\<open>TypeError\<close>.
\<close>

datatype error = TypeError

datatype jsval = Num real | NaN | Undefined

text \<open>Arithmetic and comparison after \<^verbatim>\<open>ToNumber\<close>: \<^verbatim>\<open>undefined\<close> becomes \<^verbatim>\<open>NaN\<close>,
  \<^verbatim>\<open>NaN\<close> is absorbing, and every comparison with \<^verbatim>\<open>NaN\<close> is false.\<close>

fun jadd :: "jsval \<Rightarrow> jsval \<Rightarrow> jsval" where
  "jadd (Num x) (Num y) = Num (x + y)"
| "jadd _ _ = NaN"

fun jsub :: "jsval \<Rightarrow> jsval \<Rightarrow> jsval" where
  "jsub (Num x) (Num y) = Num (x - y)"
| "jsub _ _ = NaN"

fun jmul :: "jsval \<Rightarrow> jsval \<Rightarrow> jsval" where
  "jmul (Num x) (Num y) = Num (x * y)"
| "jmul _ _ = NaN"

text \<open>Division by a non-zero literal (the source only ever divides by \<^verbatim>\<open>100\<close>).\<close>

fun jdiv100 :: "jsval \<Rightarrow> jsval" where
  "jdiv100 (Num x) = Num (x / 100)"
| "jdiv100 _ = NaN"

fun jlt :: "jsval \<Rightarrow> jsval \<Rightarrow> bool" where
  "jlt (Num x) (Num y) = (x < y)"
| "jlt _ _ = False"

record point =
  p_lat :: real
  p_lng :: real

record customer =
  cid :: string
  lat :: real
  lng :: real
  demand :: real

record problem =
  depot :: "point option"
  destinations :: "customer list"
  numVehicles :: nat
  vehicleCapacity :: real
  avgSpeed :: jsval
  fuelConsumption :: jsval

type_synonym matrix = "real list list"

text \<open>\<^verbatim>\<open>m[a][b]\<close>: a missing row throws, a missing column reads \<^verbatim>\<open>undefined\<close>.\<close>

definition cell :: "matrix \<Rightarrow> nat \<Rightarrow> nat \<Rightarrow> error + jsval" where
  "cell m a b =
     (if a < length m
      then Inr (if b < length (m ! a) then Num (m ! a ! b) else Undefined)
      else Inl TypeError)"

text \<open>A complete matrix over \<open>n\<close> nodes: \<open>n\<close> rows of \<open>n\<close> numbers.\<close>

definition complete_matrix :: "matrix \<Rightarrow> nat \<Rightarrow> bool" where
  "complete_matrix m n = (length m = n \<and> list_all (\<lambda>row. length row = n) m)"

definition in_bounds :: "nat \<Rightarrow> nat list \<Rightarrow> bool" where
  "in_bounds n r = list_all (\<lambda>k. k < n) r"

section \<open>Route metrics\<close>

text \<open>\<^verbatim>\<open>calculateRouteDistance\<close>, \<^verbatim>\<open>calculateRouteTime\<close>: the loop
  \<^verbatim>\<open>for (i = 0; i < route.length - 1; i++) acc += m[route[i]][route[i + 1]]\<close>
  walks the consecutive pairs of the route; \<open>acc\<close> is the running total.\<close>

fun sum_legs :: "matrix \<Rightarrow> nat list \<Rightarrow> jsval \<Rightarrow> error + jsval" where
  "sum_legs m (a # b # rest) acc =
     (case cell m a b of
        Inl e \<Rightarrow> Inl e
      | Inr d \<Rightarrow> sum_legs m (b # rest) (jadd acc d))"
| "sum_legs m _ acc = Inr acc"

definition calculateRouteDistance :: "matrix \<Rightarrow> nat list \<Rightarrow> error + jsval" where
  "calculateRouteDistance distanceMatrix r = sum_legs distanceMatrix r (Num 0)"

definition calculateRouteTime :: "matrix \<Rightarrow> nat list \<Rightarrow> error + jsval" where
  "calculateRouteTime timeMatrix r = sum_legs timeMatrix r (Num 0)"

definition calculateRouteEnergy :: "problem \<Rightarrow> matrix \<Rightarrow> nat list \<Rightarrow> error + jsval" where
  "calculateRouteEnergy p distanceMatrix r =
     (case calculateRouteDistance distanceMatrix r of
        Inl e \<Rightarrow> Inl e
      | Inr d \<Rightarrow> Inr (jmul (jdiv100 d) (fuelConsumption p)))"

text \<open>The length of a route over a complete matrix, as a plain real number: the
  specification's \<open>routeDistance\<close>, used to state results.\<close>

fun route_length :: "matrix \<Rightarrow> nat list \<Rightarrow> real" where
  "route_length m (a # b # rest) = m ! a ! b + route_length m (b # rest)"
| "route_length m _ = 0"

section \<open>Solution evaluation\<close>

record solution =
  algorithm :: string
  distance :: jsval
  time :: jsval
  energy :: jsval
  vehicles :: nat
  routes :: "nat list list"
  color :: string

definition vehicleColors :: "string list" where
  "vehicleColors =
     [''#e74c3c'', ''#3498db'', ''#2ecc71'', ''#f39c12'', ''#9b59b6'',
      ''#1abc9c'', ''#e67e22'', ''#34495e'', ''#16a085'', ''#c0392b'']"

text \<open>The body of \<^verbatim>\<open>routes.forEach\<close> in \<^verbatim>\<open>evaluateSolution\<close>: the three running
  totals, updated route by route; an exception in any metric ends the evaluation.\<close>

fun add_totals ::
  "problem \<Rightarrow> matrix \<Rightarrow> matrix \<Rightarrow> nat list list \<Rightarrow> jsval \<times> jsval \<times> jsval
     \<Rightarrow> error + (jsval \<times> jsval \<times> jsval)" where
  "add_totals p dm tm [] tot = Inr tot"
| "add_totals p dm tm (r # rs) (totalDistance, totalTime, totalEnergy) =
     (case calculateRouteDistance dm r of
        Inl e \<Rightarrow> Inl e
      | Inr d \<Rightarrow>
         (case calculateRouteTime tm r of
            Inl e \<Rightarrow> Inl e
          | Inr t \<Rightarrow>
             (case calculateRouteEnergy p dm r of
                Inl e \<Rightarrow> Inl e
              | Inr en \<Rightarrow>
                 add_totals p dm tm rs
                   (jadd totalDistance d, jadd totalTime t, jadd totalEnergy en))))"

definition evaluateSolution ::
  "problem \<Rightarrow> matrix \<Rightarrow> matrix \<Rightarrow> nat list list \<Rightarrow> string \<Rightarrow> nat \<Rightarrow> error + solution" where
  "evaluateSolution p dm tm rs algorithmName colorIndex =
     (case add_totals p dm tm rs (Num 0, Num 0, Num 0) of
        Inl e \<Rightarrow> Inl e
      | Inr (totalDistance, totalTime, totalEnergy) \<Rightarrow>
          Inr \<lparr> algorithm = algorithmName,
                distance = totalDistance,
                time = totalTime,
                energy = totalEnergy,
                vehicles = length rs,
                routes = rs,
                color = vehicleColors ! (colorIndex mod length vehicleColors) \<rparr>)"

text \<open>The customers of a route are its entries other than the depot index \<open>0\<close>; a
  route is non-empty when it has at least one.\<close>

definition route_customers :: "nat list \<Rightarrow> nat list" where
  "route_customers r = filter (\<lambda>k. k \<noteq> 0) r"


section \<open>2-Opt improvement\<close>

text \<open>\<^verbatim>\<open>[...route.slice(0, i), ...route.slice(i, j + 1).reverse(), ...route.slice(j + 1)]\<close>,
  with \<^verbatim>\<open>slice(a, b)\<close> as \<open>drop a (take b r)\<close>.\<close>

definition reverse_segment :: "nat list \<Rightarrow> nat \<Rightarrow> nat \<Rightarrow> nat list" where
  "reverse_segment r i j = take i r @ rev (drop i (take (j + 1) r)) @ drop (j + 1) r"

text \<open>The index pairs of the two nested \<^verbatim>\<open>for\<close> loops, in the order they are visited:
  \<^verbatim>\<open>i\<close> from 1 while \<^verbatim>\<open>i < route.length - 2\<close>, \<^verbatim>\<open>j\<close> from \<^verbatim>\<open>i + 1\<close> while
  \<^verbatim>\<open>j < route.length - 1\<close>.\<close>

definition segment_pairs :: "nat \<Rightarrow> (nat \<times> nat) list" where
  "segment_pairs len = concat (map (\<lambda>i. map (\<lambda>j. (i, j)) [i + 1 ..< len - 1]) [1 ..< len - 2])"

text \<open>One pass of the nested loops over the current \<^verbatim>\<open>route\<close>; the state is
  \<^verbatim>\<open>(bestRoute, bestDistance, improved)\<close>.\<close>

fun twoOpt_scan ::
  "matrix \<Rightarrow> nat list \<Rightarrow> (nat \<times> nat) list \<Rightarrow> nat list \<times> jsval \<times> bool
     \<Rightarrow> error + (nat list \<times> jsval \<times> bool)" where
  "twoOpt_scan dm r [] st = Inr st"
| "twoOpt_scan dm r ((i, j) # ps) (bestRoute, bestDistance, improved) =
     (let newRoute = reverse_segment r i j in
      case calculateRouteDistance dm newRoute of
        Inl e \<Rightarrow> Inl e
      | Inr newDistance \<Rightarrow>
          twoOpt_scan dm r ps
            (if jlt newDistance bestDistance then (newRoute, newDistance, True)
             else (bestRoute, bestDistance, improved)))"

text \<open>The \<^verbatim>\<open>while (improved)\<close> loop. It has no iteration cap, so it is a partial
  function: \<open>None\<close> would be a loop that never ends, \<open>Some (Inl e)\<close> an exception.\<close>

partial_function (option) twoOpt_loop ::
  "matrix \<Rightarrow> nat list \<Rightarrow> nat list \<Rightarrow> jsval \<Rightarrow> bool \<Rightarrow> (error + nat list) option" where
  "twoOpt_loop dm r bestRoute bestDistance improved =
     (if improved then
        (case twoOpt_scan dm r (segment_pairs (length r)) (bestRoute, bestDistance, False) of
           Inl e \<Rightarrow> Some (Inl e)
         | Inr (bestRoute', bestDistance', improved') \<Rightarrow>
             twoOpt_loop dm bestRoute' bestRoute' bestDistance' improved')
      else Some (Inr bestRoute))"

declare twoOpt_loop.simps [code]

definition twoOptImprovement :: "matrix \<Rightarrow> nat list \<Rightarrow> (error + nat list) option" where
  "twoOptImprovement dm r =
     (case calculateRouteDistance dm r of
        Inl e \<Rightarrow> Some (Inl e)
      | Inr bestDistance \<Rightarrow> twoOpt_loop dm r r bestDistance True)"

text \<open>\<^verbatim>\<open>xs.splice(k, 1)\<close> removes the element at position \<open>k\<close>.\<close>

definition splice1 :: "nat \<Rightarrow> 'a list \<Rightarrow> 'a list" where
  "splice1 k xs = take k xs @ drop (k + 1) xs"

section \<open>Nearest-neighbour constructor\<close>

text \<open>
  \<^verbatim>\<open>unvisited = [...destinations]\<close> holds references to the customer objects of
  \<^verbatim>\<open>destinations\<close>, and \<^verbatim>\<open>destinations.indexOf(obj)\<close> finds an object by identity.
  \<^verbatim>\<open>JSON.parse\<close> makes every element of the array an object of its own, so the
  identity of a customer object is its position in \<^verbatim>\<open>destinations\<close>. An element of
  \<^verbatim>\<open>unvisited\<close> is modelled as the pair of that position and the object's fields:
  \<^verbatim>\<open>destinations.indexOf(u)\<close> is \<open>fst u\<close> and \<^verbatim>\<open>u.demand\<close> is \<open>demand (snd u)\<close>.
\<close>

type_synonym custref = "nat \<times> customer"

text \<open>The \<^verbatim>\<open>for\<close> loop that looks for the nearest unvisited customer that fits.
  \<open>best\<close> is the pair \<^verbatim>\<open>(nearestIdx, nearestDist)\<close>; \<open>None\<close> is its initial value
  \<^verbatim>\<open>(-1, Infinity)\<close>. A distance that is not a number compares false.\<close>

fun nearest_scan ::
  "problem \<Rightarrow> matrix \<Rightarrow> nat \<Rightarrow> real \<Rightarrow> custref list \<Rightarrow> nat \<Rightarrow> (nat \<times> real) option
     \<Rightarrow> error + (nat \<times> real) option" where
  "nearest_scan p dm currentPos currentLoad [] i best = Inr best"
| "nearest_scan p dm currentPos currentLoad (u # us) i best =
     (let destIdx = fst u + 1 in
      case cell dm currentPos destIdx of
        Inl e \<Rightarrow> Inl e
      | Inr d \<Rightarrow>
          nearest_scan p dm currentPos currentLoad us (i + 1)
            (case d of
               Num x \<Rightarrow>
                 if (case best of None \<Rightarrow> True | Some (nearestIdx, nearestDist) \<Rightarrow> x < nearestDist)
                    \<and> currentLoad + demand (snd u) \<le> vehicleCapacity p
                 then Some (i, x) else best
             | _ \<Rightarrow> best))"

lemma nearest_scan_index:
  "nearest_scan p dm pos ld us i best = Inr (Some (k, d)) \<Longrightarrow>
     best = Some (k, d)
     \<or> (i \<le> k \<and> k < i + length us \<and> ld + demand (snd (us ! (k - i))) \<le> vehicleCapacity p)"
proof (induction us arbitrary: i best)
  case Nil
  then show ?case by simp
next
  case (Cons u us)
  from Cons.prems obtain c where c: "cell dm pos (fst u + 1) = Inr c"
    by (cases "cell dm pos (fst u + 1)") (simp_all add: Let_def)
  let ?best' = "case c of
      Num x \<Rightarrow>
        if (case best of None \<Rightarrow> True | Some (nearestIdx, nearestDist) \<Rightarrow> x < nearestDist)
           \<and> ld + demand (snd u) \<le> vehicleCapacity p
        then Some (i, x) else best
    | _ \<Rightarrow> best"
  from Cons.prems c have "nearest_scan p dm pos ld us (i + 1) ?best' = Inr (Some (k, d))"
    by (simp add: Let_def)
  from Cons.IH [OF this] consider
      (kept) "?best' = Some (k, d)"
    | (later) "i + 1 \<le> k" "k < i + 1 + length us"
        "ld + demand (snd (us ! (k - (i + 1)))) \<le> vehicleCapacity p"
    by blast
  then show ?case
  proof cases
    case kept
    then show ?thesis
      by (auto split: jsval.splits if_splits)
  next
    case later
    then have "(u # us) ! (k - i) = us ! (k - (i + 1))"
      by (simp add: nth_Cons')
    with later show ?thesis by simp
  qed
qed

text \<open>The inner \<^verbatim>\<open>while (unvisited.length > 0)\<close> loop that fills one route, up to its
  \<^verbatim>\<open>break\<close>. It returns the route built so far and what is left of \<^verbatim>\<open>unvisited\<close>.\<close>

function build_route ::
  "problem \<Rightarrow> matrix \<Rightarrow> nat list \<Rightarrow> nat \<Rightarrow> real \<Rightarrow> custref list
     \<Rightarrow> error + (nat list \<times> custref list)" where
  "build_route p dm r currentPos currentLoad unvisited =
     (if unvisited \<noteq> [] then
        (case nearest_scan p dm currentPos currentLoad unvisited 0 None of
           Inl e \<Rightarrow> Inl e
         | Inr None \<Rightarrow> Inr (r, unvisited)
         | Inr (Some (nearestIdx, nearestDist)) \<Rightarrow>
             (let nextDest = unvisited ! nearestIdx;
                  unvisited' = splice1 nearestIdx unvisited;
                  nextIdx = fst nextDest + 1
              in build_route p dm (r @ [nextIdx]) nextIdx
                   (currentLoad + demand (snd nextDest)) unvisited'))
      else Inr (r, unvisited))"
  by pat_completeness auto
termination
proof (relation "measure (\<lambda>(p, dm, r, currentPos, currentLoad, unvisited). length unvisited)")
  show "wf (measure (\<lambda>(p, dm, r, currentPos, currentLoad, unvisited). length unvisited))"
    by simp
next
  fix p dm r currentPos currentLoad unvisited x2 x2a x y nextDest unvisited' nextIdx
  assume ne: "unvisited \<noteq> []"
    and sc: "nearest_scan p dm currentPos currentLoad unvisited 0 None = Inr x2"
    and x2: "x2 = Some x2a" "(x, y) = x2a"
    and u': "unvisited' = splice1 x unvisited"
  from sc x2 have "nearest_scan p dm currentPos currentLoad unvisited 0 None = Inr (Some (x, y))"
    by simp
  from nearest_scan_index [OF this] have "x < length unvisited"
    by simp
  then show "((p, dm, r @ [nextIdx], nextIdx, currentLoad + demand (snd nextDest), unvisited'),
              (p, dm, r, currentPos, currentLoad, unvisited))
             \<in> measure (\<lambda>(p, dm, r, currentPos, currentLoad, unvisited). length unvisited)"
    using u' by (simp add: splice1_def)
qed

text \<open>The first loop,
  \<^verbatim>\<open>for (let v = 0; v < numVehicles && unvisited.length > 0; v++)\<close>: one route per
  vehicle, kept only when \<^verbatim>\<open>route.length > 2\<close>.\<close>

function nn_first ::
  "problem \<Rightarrow> matrix \<Rightarrow> nat \<Rightarrow> custref list \<Rightarrow> nat list list
     \<Rightarrow> error + (custref list \<times> nat list list)" where
  "nn_first p dm v unvisited vehicleRoutes =
     (if v < numVehicles p \<and> unvisited \<noteq> [] then
        (case build_route p dm [0] 0 0 unvisited of
           Inl e \<Rightarrow> Inl e
         | Inr (r, unvisited') \<Rightarrow>
             nn_first p dm (v + 1) unvisited'
               (if length (r @ [0]) > 2 then vehicleRoutes @ [r @ [0]] else vehicleRoutes))
      else Inr (unvisited, vehicleRoutes))"
  by pat_completeness auto
termination
  by (relation "measure (\<lambda>(p, dm, v, unvisited, vehicleRoutes). numVehicles p - v)") auto

declare build_route.simps [simp del]
declare nn_first.simps [simp del]

text \<open>The second loop,
  \<^verbatim>\<open>while (unvisited.length > 0 && vehicleRoutes.length < numVehicles)\<close>. Nothing in it
  bounds the number of passes, so it is a partial function: \<open>None\<close> is a loop that
  never ends.\<close>

partial_function (option) nn_extra ::
  "problem \<Rightarrow> matrix \<Rightarrow> custref list \<Rightarrow> nat list list \<Rightarrow> (error + nat list list) option" where
  "nn_extra p dm unvisited vehicleRoutes =
     (if unvisited \<noteq> [] \<and> length vehicleRoutes < numVehicles p then
        (case build_route p dm [0] 0 0 unvisited of
           Inl e \<Rightarrow> Some (Inl e)
         | Inr (r, unvisited') \<Rightarrow>
             nn_extra p dm unvisited'
               (if length (r @ [0]) > 2 then vehicleRoutes @ [r @ [0]] else vehicleRoutes))
      else Some (Inr vehicleRoutes))"

declare nn_extra.simps [code]

definition nearestNeighborVRP :: "problem \<Rightarrow> matrix \<Rightarrow> (error + nat list list) option" where
  "nearestNeighborVRP p dm =
     (case nn_first p dm 0 (enumerate 0 (destinations p)) [] of
        Inl e \<Rightarrow> Some (Inl e)
      | Inr (unvisited, vehicleRoutes) \<Rightarrow> nn_extra p dm unvisited vehicleRoutes)"

section \<open>Clarke-Wright savings constructor\<close>

text \<open>A savings entry \<^verbatim>\<open>{i, j, saving}\<close> is a triple. The two nested \<^verbatim>\<open>for\<close> loops
  visit the pairs \<open>1 \<le> i < j \<le> destinations.length\<close>, \<open>i\<close> ascending, then \<open>j\<close>.\<close>

type_synonym saving = "nat \<times> nat \<times> jsval"

definition customer_pairs :: "nat \<Rightarrow> (nat \<times> nat) list" where
  "customer_pairs c = concat (map (\<lambda>i. map (\<lambda>j. (i, j)) [i + 1 ..< c + 1]) [1 ..< c + 1])"

fun compute_savings :: "matrix \<Rightarrow> (nat \<times> nat) list \<Rightarrow> error + saving list" where
  "compute_savings dm [] = Inr []"
| "compute_savings dm ((i, j) # ps) =
     (case cell dm 0 i of
        Inl e \<Rightarrow> Inl e
      | Inr d0i \<Rightarrow>
         (case cell dm 0 j of
            Inl e \<Rightarrow> Inl e
          | Inr d0j \<Rightarrow>
             (case cell dm i j of
                Inl e \<Rightarrow> Inl e
              | Inr dij \<Rightarrow>
                 (case compute_savings dm ps of
                    Inl e \<Rightarrow> Inl e
                  | Inr rest \<Rightarrow> Inr ((i, j, jsub (jadd d0i d0j) dij) # rest)))))"

text \<open>\<^verbatim>\<open>savings.sort((a, b) => b.saving - a.saving)\<close>: a stable sort, descending in the
  saving. Over a complete matrix every saving is a number and the comparator is the
  order of the reals. (With a \<^verbatim>\<open>NaN\<close> saving the comparator is inconsistent and the
  order JavaScript produces is implementation-defined; \<open>saving_key\<close> then places the
  entry as if its saving were 0.)\<close>

fun saving_key :: "saving \<Rightarrow> real" where
  "saving_key (i, j, Num x) = - x"
| "saving_key (i, j, _) = 0"

definition sort_savings :: "saving list \<Rightarrow> saving list" where
  "sort_savings sv = sort_key saving_key sv"

text \<open>An element of the working array \<^verbatim>\<open>routes\<close>:
  \<^verbatim>\<open>{route, load, ends: {start, end}}\<close>.\<close>

record route_entry =
  route :: "nat list"
  load :: real
  ends_start :: nat
  ends_end :: nat

definition initial_routes :: "problem \<Rightarrow> route_entry list" where
  "initial_routes p =
     map (\<lambda>idx. \<lparr> route = [0, idx + 1, 0],
                  load = demand (destinations p ! idx),
                  ends_start = idx + 1,
                  ends_end = idx + 1 \<rparr>)
       [0 ..< length (destinations p)]"

text \<open>\<^verbatim>\<open>routes.find(pred)\<close> returns a reference to the first entry that satisfies the
  predicate. Every entry of the array is an object of its own, so the reference is
  modelled by its position: \<open>findIndex\<close> is the position of the first match,
  \<^verbatim>\<open>routeI !== routeJ\<close> compares positions, and \<^verbatim>\<open>routes.indexOf(routeI)\<close> is that
  position again.\<close>

fun findIndex :: "('a \<Rightarrow> bool) \<Rightarrow> 'a list \<Rightarrow> nat option" where
  "findIndex P [] = None"
| "findIndex P (x # xs) = (if P x then Some 0 else map_option Suc (findIndex P xs))"

text \<open>The body of the merge loop after the \<^verbatim>\<open>break\<close> test.\<close>

fun merge_step :: "problem \<Rightarrow> saving \<Rightarrow> route_entry list \<Rightarrow> route_entry list" where
  "merge_step p (i, j, s) rs =
     (case (findIndex (\<lambda>r. ends_end r = i) rs, findIndex (\<lambda>r. ends_start r = j) rs) of
        (Some idxI, Some idxJ) \<Rightarrow>
          if idxI \<noteq> idxJ then
            (let routeI = rs ! idxI;
                 routeJ = rs ! idxJ;
                 totalLoad = load routeI + load routeJ
             in if totalLoad \<le> vehicleCapacity p then
                  (let newRoute = butlast (route routeI) @ tl (route routeJ);
                       rs1 = splice1 (max idxI idxJ) rs;
                       rs2 = splice1 (min idxI idxJ) rs1
                   in rs2 @ [\<lparr> route = newRoute, load = totalLoad,
                                ends_start = ends_start routeI, ends_end = ends_end routeJ \<rparr>])
                else rs)
          else rs
      | _ \<Rightarrow> rs)"

text \<open>\<^verbatim>\<open>for (const saving of savings) { if (routes.length <= numVehicles) break; ... }\<close>\<close>

fun merge_loop :: "problem \<Rightarrow> saving list \<Rightarrow> route_entry list \<Rightarrow> route_entry list" where
  "merge_loop p [] rs = rs"
| "merge_loop p (s # ss) rs =
     (if length rs \<le> numVehicles p then rs else merge_loop p ss (merge_step p s rs))"

definition savingsAlgorithmVRP :: "problem \<Rightarrow> matrix \<Rightarrow> error + nat list list" where
  "savingsAlgorithmVRP p dm =
     (case compute_savings dm (customer_pairs (length (destinations p))) of
        Inl e \<Rightarrow> Inl e
      | Inr savings \<Rightarrow>
          Inr (map route (merge_loop p (sort_savings savings) (initial_routes p))))"

text \<open>The demand carried on a route: the sum of the demands of its customers, customer
  index \<open>k\<close> being \<^verbatim>\<open>destinations[k - 1]\<close>.\<close>

definition route_load :: "problem \<Rightarrow> nat list \<Rightarrow> real" where
  "route_load p r = sum_list (map (\<lambda>k. demand (destinations p ! (k - 1))) (route_customers r))"

text \<open>What the merge loop keeps true of every entry of \<^verbatim>\<open>routes\<close>: the route has
  at least three nodes, starts and ends at the depot, and \<open>load\<close> is the demand on it.
  \<open>served\<close> lists the customers of all entries; \<open>join_entries\<close> is the entry a merge
  pushes.\<close>

definition entry_ok :: "problem \<Rightarrow> route_entry \<Rightarrow> bool" where
  "entry_ok p e =
     (3 \<le> length (route e) \<and> hd (route e) = 0 \<and> last (route e) = 0
      \<and> load e = route_load p (route e))"

definition served :: "route_entry list \<Rightarrow> nat list" where
  "served rs = concat (map (\<lambda>e. route_customers (route e)) rs)"

definition join_entries :: "route_entry \<Rightarrow> route_entry \<Rightarrow> route_entry" where
  "join_entries a b =
     \<lparr> route = butlast (route a) @ tl (route b), load = load a + load b,
       ends_start = ends_start a, ends_end = ends_end b \<rparr>"

section \<open>Example problems\<close>

text \<open>Problems used to run the model: customers with the given demands (their
  coordinates play no part once the matrices are given).\<close>

definition at_origin :: "string \<Rightarrow> real \<Rightarrow> customer" where
  "at_origin name d = \<lparr>cid = name, lat = 0, lng = 0, demand = d\<rparr>"

definition example_problem :: "real list \<Rightarrow> nat \<Rightarrow> real \<Rightarrow> problem" where
  "example_problem demands vehicleCount capacity =
     \<lparr>depot = Some \<lparr>p_lat = 0, p_lng = 0\<rparr>,
      destinations = map (at_origin ''C'') demands,
      numVehicles = vehicleCount, vehicleCapacity = capacity,
      avgSpeed = Num 40, fuelConsumption = Num 8\<rparr>"

section \<open>Invariants of the nearest-neighbour loops\<close>

text \<open>\<open>ids\<close> are the customer indices of the elements of \<^verbatim>\<open>unvisited\<close>; \<open>refs_ok\<close>
  says that every element is an object of \<^verbatim>\<open>destinations\<close>, at its position. The
  loops keep \<open>nn_inv\<close>: the unvisited customers and the customers on the routes built
  so far are together the customers \<open>1 .. C\<close>, each once, and every route built is
  within capacity.\<close>

definition ids :: "custref list \<Rightarrow> nat list" where
  "ids us = map (\<lambda>u. fst u + 1) us"

definition refs_ok :: "problem \<Rightarrow> custref list \<Rightarrow> bool" where
  "refs_ok p us =
     list_all (\<lambda>u. fst u < length (destinations p) \<and> snd u = destinations p ! fst u) us"

definition nn_inv :: "problem \<Rightarrow> custref list \<Rightarrow> nat list list \<Rightarrow> bool" where
  "nn_inv p us rs =
     (refs_ok p us
      \<and> mset (ids us) + mset (concat (map route_customers rs))
            = mset [1 ..< length (destinations p) + 1]
      \<and> list_all (\<lambda>r. route_load p r \<le> vehicleCapacity p) rs)"

section \<open>Validation and the solve entry point\<close>

text \<open>The messages \<^verbatim>\<open>alert\<close> shows, without their wording: the warning carries the
  total demand and the total capacity it prints.\<close>

datatype alert =
    DemandExceedsCapacity real real
  | NoDestinations
  | NoDepot
  | NoAlgorithmSelected

text \<open>\<^verbatim>\<open>validateProblem\<close> returns the alerts it raised and its boolean result.\<close>

definition validateProblem :: "problem \<Rightarrow> alert list \<times> bool" where
  "validateProblem p =
     (let totalDemand = foldl (\<lambda>sum d. sum + demand d) 0 (destinations p);
          totalCapacity = real (numVehicles p) * vehicleCapacity p
      in if totalDemand > totalCapacity then
           ([DemandExceedsCapacity totalDemand totalCapacity], False)
         else if length (destinations p) = 0 then ([NoDestinations], False)
         else if depot p = None then ([NoDepot], False)
         else ([], True))"

text \<open>The three check boxes read by \<^verbatim>\<open>solveVRP\<close>.\<close>

record selection =
  useNearestNeighbor :: bool
  useSavings :: bool
  use2Opt :: bool

text \<open>\<^verbatim>\<open>routes.map((route) => twoOptImprovement(route))\<close>\<close>

fun improve_all :: "matrix \<Rightarrow> nat list list \<Rightarrow> (error + nat list list) option" where
  "improve_all dm [] = Some (Inr [])"
| "improve_all dm (r # rs) =
     (case twoOptImprovement dm r of
        None \<Rightarrow> None
      | Some (Inl e) \<Rightarrow> Some (Inl e)
      | Some (Inr r') \<Rightarrow>
          (case improve_all dm rs of
             None \<Rightarrow> None
           | Some (Inl e) \<Rightarrow> Some (Inl e)
           | Some (Inr rs') \<Rightarrow> Some (Inr (r' # rs'))))"

text \<open>One \<^verbatim>\<open>if (useNN) { ... }\<close> / \<^verbatim>\<open>if (useSavings) { ... }\<close> block: the constructor's
  routes, improved when \<^verbatim>\<open>use2Opt\<close> is checked, then evaluated under the algorithm's
  label.\<close>

definition run_heuristic ::
  "problem \<Rightarrow> matrix \<Rightarrow> matrix \<Rightarrow> bool \<Rightarrow> (error + nat list list) option \<Rightarrow> string \<Rightarrow> nat
     \<Rightarrow> (error + solution) option" where
  "run_heuristic p dm tm twoOpt constructed label colorIndex =
     (case constructed of
        None \<Rightarrow> None
      | Some (Inl e) \<Rightarrow> Some (Inl e)
      | Some (Inr rs) \<Rightarrow>
          (case (if twoOpt then improve_all dm rs else Some (Inr rs)) of
             None \<Rightarrow> None
           | Some (Inl e) \<Rightarrow> Some (Inl e)
           | Some (Inr rs') \<Rightarrow>
               Some (evaluateSolution p dm tm rs'
                       (label @ (if twoOpt then '' + 2-Opt'' else '''')) colorIndex)))"

text \<open>The two labels. The first is \<^verbatim>\<open>"Vecino M.s Cercano"\<close> with an accented
  \<^verbatim>\<open>a\<close> in place of the dot, here as its two UTF-8 bytes; the second is
  \<^verbatim>\<open>"Algoritmo de Ahorros"\<close>.\<close>

definition nn_label :: string where
  "nn_label = ''Vecino M'' @ [CHR 0xC3, CHR 0xA1] @ ''s Cercano''"

definition savings_label :: string where
  "savings_label = ''Algoritmo de Ahorros''"

text \<open>What a call of \<^verbatim>\<open>solveVRP\<close> comes to: it returns early after the alerts shown,
  it throws, or it hands a list of solutions to \<^verbatim>\<open>displayResultsInNewTab\<close>.\<close>

datatype outcome =
    Aborted "alert list"
  | Failed error
  | Displayed "solution list"

text \<open>\<^verbatim>\<open>solveVRP\<close>. The two matrices are those \<^verbatim>\<open>calculateDistanceMatrix\<close> stores
  after validation; map drawing is left out. \<open>None\<close> is a call that never returns.\<close>

definition solveVRP :: "problem \<Rightarrow> selection \<Rightarrow> matrix \<Rightarrow> matrix \<Rightarrow> outcome option" where
  "solveVRP p sel dm tm =
     (case validateProblem p of
        (alerts, False) \<Rightarrow> Some (Aborted alerts)
      | (alerts, True) \<Rightarrow>
          if \<not> useNearestNeighbor sel \<and> \<not> useSavings sel then
            Some (Aborted (alerts @ [NoAlgorithmSelected]))
          else
            (case (if useNearestNeighbor sel then
                     (case run_heuristic p dm tm (use2Opt sel) (nearestNeighborVRP p dm)
                             nn_label 0 of
                        None \<Rightarrow> None
                      | Some (Inl e) \<Rightarrow> Some (Inl e)
                      | Some (Inr s) \<Rightarrow> Some (Inr [s]))
                   else Some (Inr [])) of
               None \<Rightarrow> None
             | Some (Inl e) \<Rightarrow> Some (Failed e)
             | Some (Inr results) \<Rightarrow>
                 if useSavings sel then
                   (case run_heuristic p dm tm (use2Opt sel) (Some (savingsAlgorithmVRP p dm))
                           savings_label (length results) of
                      None \<Rightarrow> None
                    | Some (Inl e) \<Rightarrow> Some (Failed e)
                    | Some (Inr s) \<Rightarrow> Some (Displayed (results @ [s])))
                 else Some (Displayed results)))"

section \<open>Facts about the route metrics\<close>

lemma cell_complete:
  "complete_matrix m n \<Longrightarrow> a < n \<Longrightarrow> b < n \<Longrightarrow> cell m a b = Inr (Num (m ! a ! b))"
  by (simp add: cell_def complete_matrix_def list_all_length)

lemma sum_legs_complete:
  "complete_matrix m n \<Longrightarrow> in_bounds n r \<Longrightarrow>
     sum_legs m r (Num a) = Inr (Num (a + route_length m r))"
proof (induction m r "Num a" arbitrary: a rule: sum_legs.induct)
  case (1 m x y rest)
  from "1.prems" have xy: "x < n" "y < n" and rest: "in_bounds n (y # rest)"
    by (simp_all add: in_bounds_def)
  have c: "cell m x y = Inr (Num (m ! x ! y))"
    using cell_complete [OF "1.prems"(1) xy] .
  have "sum_legs m (y # rest) (Num (a + m ! x ! y))
          = Inr (Num (a + m ! x ! y + route_length m (y # rest)))"
    using "1.hyps" [of "Num (m ! x ! y)" "a + m ! x ! y"] c "1.prems"(1) rest by simp
  then show ?case using c by (simp add: add.assoc)
qed simp_all

lemma calculateRouteDistance_complete:
  "complete_matrix m n \<Longrightarrow> in_bounds n r \<Longrightarrow>
     calculateRouteDistance m r = Inr (Num (route_length m r))"
  using sum_legs_complete [of m n r 0] by (simp add: calculateRouteDistance_def)



section \<open>Evaluator: totals\<close>


section \<open>Fuel of a route\<close>

text \<open>
  Claim C7, as the code has it. For a route within the bounds of a complete matrix,
  \<^verbatim>\<open>calculateRouteEnergy\<close> is the route's distance divided by 100 and multiplied by
  \<^verbatim>\<open>fuelConsumption\<close>; a rate of zero gives 0; an absent rate (\<^verbatim>\<open>undefined\<close>) gives
  \<^verbatim>\<open>NaN\<close>.
\<close>

theorem calculateRouteEnergy_value:
  assumes "complete_matrix dm n" and "in_bounds n r"
  shows "calculateRouteDistance dm r = Inr (Num (route_length dm r))
       \<and> (fuelConsumption p = Num c \<longrightarrow>
            calculateRouteEnergy p dm r = Inr (Num (route_length dm r / 100 * c)))
       \<and> (fuelConsumption p = Num 0 \<longrightarrow> calculateRouteEnergy p dm r = Inr (Num 0))
       \<and> (fuelConsumption p = Undefined \<longrightarrow> calculateRouteEnergy p dm r = Inr NaN)"
  using calculateRouteDistance_complete [OF assms]
  by (simp add: calculateRouteEnergy_def)

theorem calculateRouteEnergy_value_witness:
  "calculateRouteEnergy
     \<lparr>depot = None, destinations = [], numVehicles = 1, vehicleCapacity = 10,
      avgSpeed = Num 40, fuelConsumption = Num 8\<rparr>
     [[0, 3, 4], [3, 0, 2], [4, 2, 0]] [0, 1, 2, 0] = Inr (Num (72 / 100))"
proof -
  have c: "complete_matrix [[0, 3, 4], [3, 0, 2], [4, 2, 0::real]] 3"
    by (simp add: complete_matrix_def)
  have b: "in_bounds 3 [0, 1, 2, 0]"
    by (simp add: in_bounds_def)
  show ?thesis
    using calculateRouteEnergy_value [OF c b,
        where p = "\<lparr>depot = None, destinations = [], numVehicles = 1, vehicleCapacity = 10,
           avgSpeed = Num 40, fuelConsumption = Num 8\<rparr>" and c = 8]
    by simp
qed

text \<open>
  Claim C7 as stated fails when the rate is absent: the product with \<^verbatim>\<open>undefined\<close>
  is \<^verbatim>\<open>NaN\<close>, not 0.
\<close>

theorem calculateRouteEnergy_absent_counterexample:
  "calculateRouteEnergy
     \<lparr>depot = None, destinations = [], numVehicles = 1, vehicleCapacity = 10,
      avgSpeed = Num 40, fuelConsumption = Undefined\<rparr>
     [[0, 3], [3, 0]] [0, 1, 0] = Inr NaN
   \<and> calculateRouteEnergy
     \<lparr>depot = None, destinations = [], numVehicles = 1, vehicleCapacity = 10,
      avgSpeed = Num 40, fuelConsumption = Undefined\<rparr>
     [[0, 3], [3, 0]] [0, 1, 0] \<noteq> Inr (Num 0)"
  by (simp add: calculateRouteEnergy_def calculateRouteDistance_def cell_def)

section \<open>2-Opt: termination and contract\<close>

lemma segment_pairs_bounds:
  "(i, j) \<in> set (segment_pairs len) \<Longrightarrow> 1 \<le> i \<and> i < j \<and> j + 1 < len"
  by (auto simp add: segment_pairs_def)

lemma mset_reverse_segment:
  "i \<le> j \<Longrightarrow> mset (reverse_segment r i j) = mset r"
proof -
  assume ij: "i \<le> j"
  have "take i (take (j + 1) r) @ drop i (take (j + 1) r) = take (j + 1) r"
    by (rule append_take_drop_id)
  moreover have "take i (take (j + 1) r) = take i r"
    using ij by (simp add: min_def)
  ultimately have a: "mset (take i r) + mset (drop i (take (j + 1) r)) = mset (take (j + 1) r)"
    by (metis mset_append)
  have b: "mset (take (j + 1) r) + mset (drop (j + 1) r) = mset r"
    by (metis mset_append append_take_drop_id)
  have "mset (reverse_segment r i j)
          = (mset (take i r) + mset (drop i (take (j + 1) r))) + mset (drop (j + 1) r)"
    by (simp add: reverse_segment_def)
  also have "\<dots> = mset (take (j + 1) r) + mset (drop (j + 1) r)"
    by (simp only: a)
  also have "\<dots> = mset r"
    by (rule b)
  finally show ?thesis .
qed

lemma length_reverse_segment:
  "i \<le> j \<Longrightarrow> length (reverse_segment r i j) = length r"
  by (metis mset_reverse_segment size_mset)

lemma hd_reverse_segment:
  "1 \<le> i \<Longrightarrow> r \<noteq> [] \<Longrightarrow> hd (reverse_segment r i j) = hd r"
  by (cases r; cases i) (simp_all add: reverse_segment_def)

lemma last_reverse_segment:
  "j + 1 < length r \<Longrightarrow> last (reverse_segment r i j) = last r"
  by (simp add: reverse_segment_def last_drop)

lemma in_bounds_mset:
  "mset a = mset b \<Longrightarrow> in_bounds n a = in_bounds n b"
  using mset_eq_setD [of a b] by (simp add: in_bounds_def list_all_iff)

lemma jlt_trans: "jlt a b \<Longrightarrow> jlt b c \<Longrightarrow> jlt a c"
  by (cases a; cases b; cases c) simp_all

lemma jlt_irrefl: "\<not> jlt a a"
  by (cases a) simp_all

lemma twoOpt_scan_result:
  "twoOpt_scan dm r ps (b, bd, imp) = Inr (b', bd', imp') \<Longrightarrow>
     (b' = b \<and> bd' = bd \<and> imp' = imp)
   \<or> (imp' \<and> (\<exists>i j. (i, j) \<in> set ps \<and> b' = reverse_segment r i j)
        \<and> calculateRouteDistance dm b' = Inr bd' \<and> jlt bd' bd)"
proof (induction ps arbitrary: b bd imp)
  case Nil
  then show ?case by simp
next
  case (Cons ij ps)
  obtain i j where ij: "ij = (i, j)" by (cases ij)
  let ?new = "reverse_segment r i j"
  from Cons.prems ij obtain nd where nd: "calculateRouteDistance dm ?new = Inr nd"
    by (cases "calculateRouteDistance dm ?new") (simp_all add: Let_def)
  show ?case
  proof (cases "jlt nd bd")
    case True
    with Cons.prems ij nd
    have "twoOpt_scan dm r ps (?new, nd, True) = Inr (b', bd', imp')"
      by (simp add: Let_def)
    from Cons.IH [OF this] show ?thesis
      using True nd ij by (auto intro: jlt_trans)
  next
    case False
    with Cons.prems ij nd
    have "twoOpt_scan dm r ps (b, bd, imp) = Inr (b', bd', imp')"
      by (simp add: Let_def)
    from Cons.IH [OF this] show ?thesis
      using ij by auto
  qed
qed


lemma twoOpt_loop_returns:
  "\<exists>res. twoOpt_loop dm r b bd imp = Some res"
proof (induction "card {q. mset q = mset r \<and> (\<exists>d. calculateRouteDistance dm q = Inr d \<and> jlt d bd)}"
        arbitrary: r b bd imp rule: less_induct)
  case less
  show ?case
  proof (cases imp)
    case False
    then show ?thesis by (subst twoOpt_loop.simps) simp
  next
    case True
    show ?thesis
    proof (cases "twoOpt_scan dm r (segment_pairs (length r)) (b, bd, False)")
      case (Inl e)
      with True show ?thesis by (subst twoOpt_loop.simps) simp
    next
      case (Inr st)
      obtain b' bd' imp' where st: "st = (b', bd', imp')" by (metis prod_cases3)
      have step: "twoOpt_loop dm r b bd imp = twoOpt_loop dm b' b' bd' imp'"
        using True Inr st by (subst twoOpt_loop.simps) simp
      from twoOpt_scan_result [OF Inr [unfolded st]]
      consider (same) "imp' = False"
        | (better) i j where "(i, j) \<in> set (segment_pairs (length r))"
            "b' = reverse_segment r i j" "calculateRouteDistance dm b' = Inr bd'" "jlt bd' bd"
        by auto
      then show ?thesis
      proof cases
        case same
        then have "twoOpt_loop dm b' b' bd' imp' = Some (Inr b')"
          by (subst twoOpt_loop.simps) simp
        with step show ?thesis by simp
      next
        case better
        have ms: "mset b' = mset r"
          using better(1,2) segment_pairs_bounds [of i j "length r"]
          by (simp add: mset_reverse_segment)
        let ?S = "\<lambda>r bd. {q. mset q = mset r \<and> (\<exists>d. calculateRouteDistance dm q = Inr d \<and> jlt d bd)}"
        have fin: "finite (?S r bd)"
          by (rule finite_subset [OF _ mset_eq_finite [of r]]) auto
        have sub: "?S b' bd' \<subseteq> ?S r bd"
          using ms better(4) by (auto intro: jlt_trans)
        have in1: "b' \<in> ?S r bd"
          using ms better(3,4) by simp
        have nin: "b' \<notin> ?S b' bd'"
          using better(3) by (simp add: jlt_irrefl)
        have "?S b' bd' \<subset> ?S r bd"
          using sub in1 nin by blast
        then have "card (?S b' bd') < card (?S r bd)"
          by (rule psubset_card_mono [OF fin])
        from less.hyps [OF this] step show ?thesis by simp
      qed
    qed
  qed
qed


lemma twoOpt_scan_complete:
  assumes "complete_matrix dm n" and "in_bounds n r"
  shows "list_all (\<lambda>(i, j). i \<le> j) ps \<Longrightarrow> \<exists>st'. twoOpt_scan dm r ps st = Inr st'"
proof (induction ps arbitrary: st)
  case Nil
  then show ?case by (simp del: split_paired_Ex)
next
  case (Cons ij ps)
  obtain i j where ij: "ij = (i, j)" by (cases ij)
  obtain b bd imp where st: "st = (b, bd, imp)" by (metis prod_cases3)
  from Cons.prems ij have le: "i \<le> j" and rest: "list_all (\<lambda>(i, j). i \<le> j) ps"
    by simp_all
  have "in_bounds n (reverse_segment r i j)"
    using assms(2) in_bounds_mset [OF mset_reverse_segment [OF le]] by simp
  then have d: "calculateRouteDistance dm (reverse_segment r i j)
                  = Inr (Num (route_length dm (reverse_segment r i j)))"
    by (rule calculateRouteDistance_complete [OF assms(1)])
  show ?case
    using Cons.IH [OF rest] by (simp add: ij st d Let_def)
qed

lemma segment_pairs_ordered: "list_all (\<lambda>(i, j). i \<le> j) (segment_pairs len)"
  by (auto simp add: list_all_iff dest: segment_pairs_bounds)

lemma twoOpt_loop_complete:
  assumes c: "complete_matrix dm n"
  shows "in_bounds n r \<Longrightarrow>
    \<exists>r'. twoOpt_loop dm r r (Num (route_length dm r)) imp = Some (Inr r')
        \<and> mset r' = mset r \<and> route_length dm r' \<le> route_length dm r
        \<and> (r \<noteq> [] \<longrightarrow> hd r' = hd r \<and> last r' = last r)"
proof (induction "card {q. mset q = mset r \<and> route_length dm q < route_length dm r}"
        arbitrary: r imp rule: less_induct)
  case less
  note inb = \<open>in_bounds n r\<close>
  show ?case
  proof (cases imp)
    case False
    then show ?thesis by (subst twoOpt_loop.simps) simp
  next
    case True
    obtain st where sc:
      "twoOpt_scan dm r (segment_pairs (length r)) (r, Num (route_length dm r), False) = Inr st"
      using twoOpt_scan_complete [OF c inb segment_pairs_ordered] by blast
    obtain b' bd' imp' where st: "st = (b', bd', imp')" by (metis prod_cases3)
    have step: "twoOpt_loop dm r r (Num (route_length dm r)) imp = twoOpt_loop dm b' b' bd' imp'"
      using True sc st by (subst twoOpt_loop.simps) simp
    from twoOpt_scan_result [OF sc [unfolded st]]
    consider (same) "b' = r" "imp' = False"
      | (better) i j where "(i, j) \<in> set (segment_pairs (length r))"
          "b' = reverse_segment r i j" "calculateRouteDistance dm b' = Inr bd'"
          "jlt bd' (Num (route_length dm r))"
      by auto
    then show ?thesis
    proof cases
      case same
      then have "twoOpt_loop dm b' b' bd' imp' = Some (Inr r)"
        by (subst twoOpt_loop.simps) simp
      with step show ?thesis by simp
    next
      case better
      from segment_pairs_bounds [OF better(1)]
      have ij: "1 \<le> i" "i \<le> j" "j + 1 < length r" by simp_all
      have ms: "mset b' = mset r"
        using better(2) ij(2) by (simp add: mset_reverse_segment)
      have inb': "in_bounds n b'"
        using inb in_bounds_mset [OF ms] by simp
      have "calculateRouteDistance dm b' = Inr (Num (route_length dm b'))"
        by (rule calculateRouteDistance_complete [OF c inb'])
      with better(3,4) have bd': "bd' = Num (route_length dm b')"
        and lt: "route_length dm b' < route_length dm r"
        by auto
      have ne: "r \<noteq> []" "b' \<noteq> []"
        using ij(3) ms by auto
      have ends: "hd b' = hd r" "last b' = last r"
        using better(2) ij ne(1) by (simp_all add: hd_reverse_segment last_reverse_segment)
      let ?S = "\<lambda>r. {q. mset q = mset r \<and> route_length dm q < route_length dm r}"
      have fin: "finite (?S r)"
        by (rule finite_subset [OF _ mset_eq_finite [of r]]) auto
      have "?S b' \<subset> ?S r"
        using ms lt by auto
      then have "card (?S b') < card (?S r)"
        by (rule psubset_card_mono [OF fin])
      from less.hyps [OF this inb', of imp'] obtain r' where
        r': "twoOpt_loop dm b' b' (Num (route_length dm b')) imp' = Some (Inr r')"
          "mset r' = mset b'" "route_length dm r' \<le> route_length dm b'"
          "hd r' = hd b'" "last r' = last b'"
        using ne(2) by auto
      show ?thesis
        using step r' bd' ms lt ends by auto
    qed
  qed
qed



lemma twoOpt_loop_False: "twoOpt_loop dm r b bd False = Some (Inr b)"
  by (subst twoOpt_loop.simps) simp

lemma twoOpt_loop_step:
  "twoOpt_scan dm r (segment_pairs (length r)) (b, bd, False) = Inr (b', bd', imp') \<Longrightarrow>
     twoOpt_loop dm r b bd True = twoOpt_loop dm b' b' bd' imp'"
  by (subst twoOpt_loop.simps) simp

lemma twoOpt_example:
  "twoOptImprovement [[0, 1, 2, 1], [1, 0, 5, 1], [2, 5, 0, 1], [1, 1, 1, 0]] [0, 1, 2, 3, 0]
     = Some (Inr [0, 1, 3, 2, 0])"
proof -
  let ?dm = "[[0, 1, 2, 1], [1, 0, 5, 1], [2, 5, 0, 1], [1, 1, 1, 0::real]]"
  have d: "calculateRouteDistance ?dm [0, 1, 2, 3, 0] = Inr (Num 8)"
    by (simp add: calculateRouteDistance_def cell_def)
  have s1: "twoOpt_scan ?dm [0, 1, 2, 3, 0] (segment_pairs (length [0, 1, 2, 3, 0::nat]))
              ([0, 1, 2, 3, 0], Num 8, False) = Inr ([0, 1, 3, 2, 0], Num 5, True)"
    by (simp add: segment_pairs_def upt_rec reverse_segment_def calculateRouteDistance_def cell_def)
  have s2: "twoOpt_scan ?dm [0, 1, 3, 2, 0] (segment_pairs (length [0, 1, 3, 2, 0::nat]))
              ([0, 1, 3, 2, 0], Num 5, False) = Inr ([0, 1, 3, 2, 0], Num 5, False)"
    by (simp add: segment_pairs_def upt_rec reverse_segment_def calculateRouteDistance_def cell_def)
  show ?thesis
    unfolding twoOptImprovement_def d sum.case
      twoOpt_loop_step [OF s1] twoOpt_loop_step [OF s2] twoOpt_loop_False ..
qed

text \<open>
  Claim C9. \<^verbatim>\<open>twoOptImprovement\<close> terminates on every route and every matrix (with a
  route or with the exception of a matrix read): the routes with the multiset of the
  input are finitely many, and a pass that sets \<^verbatim>\<open>improved\<close> leaves a best route
  among them whose distance is strictly below the best distance the pass started with.
\<close>

theorem twoOptImprovement_terminates:
  "(\<exists>res. twoOptImprovement dm r = Some res)
   \<and> finite {q. mset q = mset r}
   \<and> (twoOpt_scan dm r (segment_pairs (length r)) (b, bd, False) = Inr (b', bd', True) \<longrightarrow>
        mset b' = mset r \<and> calculateRouteDistance dm b' = Inr bd' \<and> jlt bd' bd)"
proof (intro conjI impI)
  show "\<exists>res. twoOptImprovement dm r = Some res"
    using twoOpt_loop_returns [of dm r r _ True]
    by (cases "calculateRouteDistance dm r") (simp_all add: twoOptImprovement_def)
  show "finite {q. mset q = mset r}"
    by (rule mset_eq_finite)
next
  assume sc: "twoOpt_scan dm r (segment_pairs (length r)) (b, bd, False) = Inr (b', bd', True)"
  from twoOpt_scan_result [OF sc] obtain i j where
    ij: "(i, j) \<in> set (segment_pairs (length r))" "b' = reverse_segment r i j"
    and d: "calculateRouteDistance dm b' = Inr bd'" "jlt bd' bd"
    by auto
  from segment_pairs_bounds [OF ij(1)] ij(2) have "mset b' = mset r"
    by (simp add: mset_reverse_segment)
  with d show "mset b' = mset r" "calculateRouteDistance dm b' = Inr bd'" "jlt bd' bd"
    by simp_all
qed

theorem twoOptImprovement_terminates_witness:
  "(\<exists>res. twoOptImprovement [[0, 1, 2, 1], [1, 0, 5, 1], [2, 5, 0, 1], [1, 1, 1, 0]]
            [0, 1, 2, 3, 0] = Some res)
   \<and> mset [0, 1, 3, 2, 0::nat] = mset [0, 1, 2, 3, 0]
   \<and> jlt (Num 5) (Num 8)"
proof -
  let ?dm = "[[0, 1, 2, 1], [1, 0, 5, 1], [2, 5, 0, 1], [1, 1, 1, 0::real]]"
  have s1: "twoOpt_scan ?dm [0, 1, 2, 3, 0] (segment_pairs (length [0, 1, 2, 3, 0::nat]))
              ([0, 1, 2, 3, 0], Num 8, False) = Inr ([0, 1, 3, 2, 0], Num 5, True)"
    by (simp add: segment_pairs_def upt_rec reverse_segment_def calculateRouteDistance_def cell_def)
  show ?thesis
    using twoOptImprovement_terminates [of ?dm "[0, 1, 2, 3, 0]" "[0, 1, 2, 3, 0]" "Num 8"
        "[0, 1, 3, 2, 0]" "Num 5"] s1
    by blast
qed

text \<open>
  Claim C4. For a route within the bounds of a complete distance matrix,
  \<^verbatim>\<open>twoOptImprovement\<close> returns a route that is no longer than the input (both
  distances are those \<^verbatim>\<open>calculateRouteDistance\<close> computes), has the same multiset of
  node indices, and has the input's first and last element.
\<close>

theorem twoOptImprovement_contract:
  assumes "complete_matrix dm n" and "in_bounds n r"
  shows "\<exists>r'. twoOptImprovement dm r = Some (Inr r')
           \<and> calculateRouteDistance dm r = Inr (Num (route_length dm r))
           \<and> calculateRouteDistance dm r' = Inr (Num (route_length dm r'))
           \<and> route_length dm r' \<le> route_length dm r
           \<and> mset r' = mset r
           \<and> (r \<noteq> [] \<longrightarrow> hd r' = hd r \<and> last r' = last r)"
proof -
  have d: "calculateRouteDistance dm r = Inr (Num (route_length dm r))"
    by (rule calculateRouteDistance_complete [OF assms])
  from twoOpt_loop_complete [OF assms, of True] obtain r' where
    r': "twoOpt_loop dm r r (Num (route_length dm r)) True = Some (Inr r')"
      "mset r' = mset r" "route_length dm r' \<le> route_length dm r"
      "r \<noteq> [] \<longrightarrow> hd r' = hd r \<and> last r' = last r"
    by blast
  have "in_bounds n r'"
    using assms(2) in_bounds_mset [OF r'(2)] by simp
  then have d': "calculateRouteDistance dm r' = Inr (Num (route_length dm r'))"
    by (rule calculateRouteDistance_complete [OF assms(1)])
  show ?thesis
    using d d' r' by (simp add: twoOptImprovement_def)
qed

theorem twoOptImprovement_contract_witness:
  "twoOptImprovement [[0, 1, 2, 1], [1, 0, 5, 1], [2, 5, 0, 1], [1, 1, 1, 0]] [0, 1, 2, 3, 0]
     = Some (Inr [0, 1, 3, 2, 0])
   \<and> route_length [[0, 1, 2, 1], [1, 0, 5, 1], [2, 5, 0, 1], [1, 1, 1, 0]] [0, 1, 3, 2, 0]
       \<le> route_length [[0, 1, 2, 1], [1, 0, 5, 1], [2, 5, 0, 1], [1, 1, 1, 0]] [0, 1, 2, 3, 0]
   \<and> mset [0, 1, 3, 2, 0::nat] = mset [0, 1, 2, 3, 0]
   \<and> hd [0, 1, 3, 2, 0::nat] = hd [0, 1, 2, 3, 0::nat]
   \<and> last [0, 1, 3, 2, 0::nat] = last [0, 1, 2, 3, 0::nat]"
proof -
  let ?dm = "[[0, 1, 2, 1], [1, 0, 5, 1], [2, 5, 0, 1], [1, 1, 1, 0::real]]"
  have c: "complete_matrix ?dm 4"
    by (simp add: complete_matrix_def)
  have b: "in_bounds 4 [0, 1, 2, 3, 0]"
    by (simp add: in_bounds_def)
  from twoOptImprovement_contract [OF c b] obtain r' where
    r': "twoOptImprovement ?dm [0, 1, 2, 3, 0] = Some (Inr r')"
      "route_length ?dm r' \<le> route_length ?dm [0, 1, 2, 3, 0]"
      "mset r' = mset [0, 1, 2, 3, 0]"
      "hd r' = hd [0, 1, 2, 3, 0::nat]" "last r' = last [0, 1, 2, 3, 0::nat]"
    by auto
  from r'(1) have "r' = [0, 1, 3, 2, 0]"
    by (simp only: twoOpt_example option.inject sum.inject)
  with r' show ?thesis
    by simp
qed

section \<open>Savings: invariants of the merge loop\<close>

lemma findIndex_Some:
  "findIndex P xs = Some k \<Longrightarrow> k < length xs \<and> P (xs ! k)"
  by (induction xs arbitrary: k) (auto split: if_splits)

lemma length_splice1: "k < length xs \<Longrightarrow> length (splice1 k xs) = length xs - 1"
  by (simp add: splice1_def)

lemma mset_splice1: "k < length xs \<Longrightarrow> mset (splice1 k xs) + {#xs ! k#} = mset xs"
proof -
  assume k: "k < length xs"
  have "mset xs = mset (take k xs @ xs ! k # drop (Suc k) xs)"
    using id_take_nth_drop [OF k] by simp
  then show ?thesis by (simp add: splice1_def)
qed

lemma nth_splice1_before: "a < b \<Longrightarrow> b < length xs \<Longrightarrow> splice1 b xs ! a = xs ! a"
  by (simp add: splice1_def nth_append)

lemma mset_splice1_twice:
  assumes "a \<noteq> b" and "a < length xs" and "b < length xs"
  shows "mset (splice1 (min a b) (splice1 (max a b) xs)) + {#xs ! a#} + {#xs ! b#} = mset xs"
proof -
  have key: "mset (splice1 lo (splice1 hi xs)) + {#xs ! lo#} + {#xs ! hi#} = mset xs"
    if lohi: "lo < hi" "hi < length xs" for lo hi
  proof -
    have lo_len: "lo < length (splice1 hi xs)"
      using lohi length_splice1 [OF lohi(2)] by linarith
    have "mset (splice1 lo (splice1 hi xs)) + {#splice1 hi xs ! lo#} = mset (splice1 hi xs)"
      by (rule mset_splice1 [OF lo_len])
    then show ?thesis
      using nth_splice1_before [OF lohi] mset_splice1 [OF lohi(2)] by simp
  qed
  show ?thesis
  proof (cases "a < b")
    case True
    from key [OF True assms(3)] show ?thesis
      using True by (simp add: min_def max_def)
  next
    case False
    then have ba: "b < a" using assms(1) by simp
    from key [OF ba assms(2)] show ?thesis
      using ba by (simp add: min_def max_def add_mset_commute)
  qed
qed

lemma sum_list_splice1_twice:
  fixes g :: "'a \<Rightarrow> 'b::comm_monoid_add"
  assumes "a \<noteq> b" and "a < length xs" and "b < length xs"
  shows "sum_list (map g (splice1 (min a b) (splice1 (max a b) xs))) + g (xs ! a) + g (xs ! b)
           = sum_list (map g xs)"
proof -
  let ?ys = "splice1 (min a b) (splice1 (max a b) xs)"
  have "sum_mset (image_mset g (mset ?ys + {#xs ! a#} + {#xs ! b#})) = sum_mset (image_mset g (mset xs))"
    using mset_splice1_twice [OF assms] by simp
  then show ?thesis
    by (simp add: sum_mset_sum_list [symmetric] ac_simps del: sum_mset_sum_list)
qed


lemma merge_step_cases:
  obtains (same) "merge_step p s rs = rs"
  | (merged) a b where "a \<noteq> b" "a < length rs" "b < length rs"
      "load (rs ! a) + load (rs ! b) \<le> vehicleCapacity p"
      "merge_step p s rs
         = splice1 (min a b) (splice1 (max a b) rs) @ [join_entries (rs ! a) (rs ! b)]"
proof -
  obtain i j v where s: "s = (i, j, v)" by (metis prod_cases3)
  show thesis
  proof (cases "findIndex (\<lambda>r. ends_end r = i) rs")
    case None
    then show ?thesis using same s by simp
  next
    case (Some a)
    note a = this
    show ?thesis
    proof (cases "findIndex (\<lambda>r. ends_start r = j) rs")
      case None
      then show ?thesis using same s a by simp
    next
      case (Some b)
      show ?thesis
      proof (cases "a \<noteq> b \<and> load (rs ! a) + load (rs ! b) \<le> vehicleCapacity p")
        case True
        have "a < length rs" "b < length rs"
          using findIndex_Some [OF a] findIndex_Some [OF Some] by simp_all
        moreover have "merge_step p s rs
          = splice1 (min a b) (splice1 (max a b) rs) @ [join_entries (rs ! a) (rs ! b)]"
          using True s a Some by (simp add: Let_def join_entries_def)
        ultimately show ?thesis using merged True by blast
      next
        case False
        then have "merge_step p s rs = rs"
          using s a Some by (auto simp add: Let_def)
        then show ?thesis by (rule same)
      qed
    qed
  qed
qed

lemma route_customers_butlast:
  "xs \<noteq> [] \<Longrightarrow> last xs = 0 \<Longrightarrow> route_customers (butlast xs) = route_customers xs"
proof -
  assume a: "xs \<noteq> []" "last xs = 0"
  have "route_customers xs = route_customers (butlast xs @ [last xs])"
    using a(1) by simp
  also have "\<dots> = route_customers (butlast xs)"
    using a(2) by (simp add: route_customers_def)
  finally show ?thesis by simp
qed

lemma route_customers_tl:
  "xs \<noteq> [] \<Longrightarrow> hd xs = 0 \<Longrightarrow> route_customers (tl xs) = route_customers xs"
  by (cases xs) (simp_all add: route_customers_def)

lemma route_customers_join:
  assumes "entry_ok p a" and "entry_ok p b"
  shows "route_customers (route (join_entries a b))
           = route_customers (route a) @ route_customers (route b)"
proof -
  have "route a \<noteq> []" "last (route a) = 0" "route b \<noteq> []" "hd (route b) = 0"
    using assms by (auto simp add: entry_ok_def)
  then have "route_customers (butlast (route a)) = route_customers (route a)"
    and "route_customers (tl (route b)) = route_customers (route b)"
    by (simp_all add: route_customers_butlast route_customers_tl)
  then show ?thesis
    by (simp add: join_entries_def route_customers_def)
qed

lemma entry_ok_join:
  assumes "entry_ok p a" and "entry_ok p b"
  shows "entry_ok p (join_entries a b)"
proof -
  from assms have la: "3 \<le> length (route a)" and lb: "3 \<le> length (route b)"
    and ha: "hd (route a) = 0" and lb0: "last (route b) = 0"
    and loads: "load a = route_load p (route a)" "load b = route_load p (route b)"
    by (simp_all add: entry_ok_def)
  have len: "3 \<le> length (route (join_entries a b))"
    using la lb by (simp add: join_entries_def)
  have "butlast (route a) \<noteq> []" and "hd (butlast (route a)) = hd (route a)"
    using la by (cases "route a"; auto)+
  then have h: "hd (route (join_entries a b)) = 0"
    using ha by (simp add: join_entries_def)
  have "tl (route b) \<noteq> []"
    using lb by (cases "route b") auto
  then have l: "last (route (join_entries a b)) = 0"
    using lb0 by (simp add: join_entries_def last_tl)
  have "route_load p (route (join_entries a b)) = route_load p (route a) + route_load p (route b)"
    using route_customers_join [OF assms] by (simp add: route_load_def)
  then have ld: "load (join_entries a b) = route_load p (route (join_entries a b))"
    using loads by (simp add: join_entries_def)
  show ?thesis
    using len h l ld by (simp add: entry_ok_def)
qed

lemma set_splice1: "set (splice1 k xs) \<subseteq> set xs"
  by (auto simp add: splice1_def dest: in_set_takeD in_set_dropD)

lemma merge_step_entry_ok:
  assumes "list_all (entry_ok p) rs"
  shows "list_all (entry_ok p) (merge_step p s rs)"
proof (cases p s rs rule: merge_step_cases)
  case same
  then show ?thesis using assms by simp
next
  case (merged a b)
  have ok: "entry_ok p (rs ! a)" "entry_ok p (rs ! b)"
    using assms merged(2,3) by (simp_all add: list_all_length)
  have "set (splice1 (min a b) (splice1 (max a b) rs)) \<subseteq> set rs"
    using set_splice1 [of "min a b" "splice1 (max a b) rs"] set_splice1 [of "max a b" rs]
    by blast
  then have "list_all (entry_ok p) (splice1 (min a b) (splice1 (max a b) rs))"
    using assms by (auto simp add: list_all_iff)
  then show ?thesis
    using merged(5) entry_ok_join [OF ok] by simp
qed

lemma merge_step_load:
  assumes "list_all (\<lambda>e. load e \<le> vehicleCapacity p) rs"
  shows "list_all (\<lambda>e. load e \<le> vehicleCapacity p) (merge_step p s rs)"
proof (cases p s rs rule: merge_step_cases)
  case same
  then show ?thesis using assms by simp
next
  case (merged a b)
  have "set (splice1 (min a b) (splice1 (max a b) rs)) \<subseteq> set rs"
    using set_splice1 [of "min a b" "splice1 (max a b) rs"] set_splice1 [of "max a b" rs]
    by blast
  then have "list_all (\<lambda>e. load e \<le> vehicleCapacity p) (splice1 (min a b) (splice1 (max a b) rs))"
    using assms by (auto simp add: list_all_iff)
  then show ?thesis
    using merged(4,5) by (simp add: join_entries_def)
qed

lemma mset_served:
  "mset (served rs) = sum_list (map (\<lambda>e. mset (route_customers (route e))) rs)"
  by (simp add: served_def mset_concat comp_def)

lemma merge_step_served:
  assumes "list_all (entry_ok p) rs"
  shows "mset (served (merge_step p s rs)) = mset (served rs)"
proof (cases p s rs rule: merge_step_cases)
  case same
  then show ?thesis by simp
next
  case (merged a b)
  let ?g = "\<lambda>e. mset (route_customers (route e))"
  have ok: "entry_ok p (rs ! a)" "entry_ok p (rs ! b)"
    using assms merged(2,3) by (simp_all add: list_all_length)
  have "mset (served (merge_step p s rs))
          = sum_list (map ?g (splice1 (min a b) (splice1 (max a b) rs)))
              + ?g (join_entries (rs ! a) (rs ! b))"
    by (simp add: mset_served merged(5))
  also have "\<dots> = sum_list (map ?g (splice1 (min a b) (splice1 (max a b) rs)))
              + ?g (rs ! a) + ?g (rs ! b)"
    by (simp add: route_customers_join [OF ok])
  also have "\<dots> = sum_list (map ?g rs)"
    by (rule sum_list_splice1_twice [OF merged(1,2,3)])
  finally show ?thesis
    by (simp add: mset_served)
qed


lemma merge_loop_invariants:
  "list_all (entry_ok p) rs \<Longrightarrow>
     list_all (entry_ok p) (merge_loop p ss rs)
     \<and> mset (served (merge_loop p ss rs)) = mset (served rs)"
proof (induction ss arbitrary: rs)
  case Nil
  then show ?case by simp
next
  case (Cons s ss)
  show ?case
  proof (cases "length rs \<le> numVehicles p")
    case True
    then show ?thesis using Cons.prems by simp
  next
    case False
    have ok: "list_all (entry_ok p) (merge_step p s rs)"
      by (rule merge_step_entry_ok [OF Cons.prems])
    from Cons.IH [OF ok] merge_step_served [OF Cons.prems, of s] False
    show ?thesis by simp
  qed
qed

lemma merge_loop_load:
  "list_all (\<lambda>e. load e \<le> vehicleCapacity p) rs \<Longrightarrow>
     list_all (\<lambda>e. load e \<le> vehicleCapacity p) (merge_loop p ss rs)"
proof (induction ss arbitrary: rs)
  case Nil
  then show ?case by simp
next
  case (Cons s ss)
  show ?case
  proof (cases "length rs \<le> numVehicles p")
    case True
    then show ?thesis using Cons.prems by simp
  next
    case False
    from Cons.IH [OF merge_step_load [OF Cons.prems, of s]] False
    show ?thesis by simp
  qed
qed




lemma initial_routes_ok: "list_all (entry_ok p) (initial_routes p)"
  by (simp add: initial_routes_def list_all_iff entry_ok_def route_load_def route_customers_def)

lemma served_initial_routes:
  "served (initial_routes p) = [1 ..< length (destinations p) + 1]"
proof -
  have "served (initial_routes p) = concat (map (\<lambda>idx. [Suc idx]) [0 ..< length (destinations p)])"
    by (simp add: served_def initial_routes_def route_customers_def comp_def)
  also have "\<dots> = map Suc [0 ..< length (destinations p)]"
    by (induction "[0 ..< length (destinations p)]") simp_all
  also have "\<dots> = [1 ..< length (destinations p) + 1]"
    by (simp add: map_Suc_upt)
  finally show ?thesis .
qed

lemma initial_routes_load:
  "list_all (\<lambda>c. demand c \<le> vehicleCapacity p) (destinations p) \<Longrightarrow>
     list_all (\<lambda>e. load e \<le> vehicleCapacity p) (initial_routes p)"
  by (simp add: initial_routes_def list_all_length)

lemma customer_pairs_bounds:
  "(i, j) \<in> set (customer_pairs c) \<Longrightarrow> 1 \<le> i \<and> i < j \<and> j \<le> c"
  by (auto simp add: customer_pairs_def)

lemma compute_savings_complete:
  assumes "complete_matrix dm n" and "0 < n"
  shows "list_all (\<lambda>(i, j). i < n \<and> j < n) ps \<Longrightarrow> \<exists>sv. compute_savings dm ps = Inr sv"
proof (induction ps)
  case Nil
  then show ?case by simp
next
  case (Cons ij ps)
  obtain i j where ij: "ij = (i, j)" by (cases ij)
  from Cons.prems ij have b: "i < n" "j < n" and rest: "list_all (\<lambda>(i, j). i < n \<and> j < n) ps"
    by simp_all
  from Cons.IH [OF rest] obtain sv where sv: "compute_savings dm ps = Inr sv"
    by blast
  show ?case
    using cell_complete [OF assms(1) assms(2) b(1)] cell_complete [OF assms(1) assms(2) b(2)]
      cell_complete [OF assms(1) b] sv ij
    by simp
qed

lemma savingsAlgorithmVRP_complete:
  assumes "complete_matrix dm (length (destinations p) + 1)"
  shows "\<exists>ss. savingsAlgorithmVRP p dm = Inr (map route (merge_loop p ss (initial_routes p)))"
proof -
  have "list_all (\<lambda>(i, j). i < length (destinations p) + 1 \<and> j < length (destinations p) + 1)
          (customer_pairs (length (destinations p)))"
    by (auto simp add: list_all_iff dest: customer_pairs_bounds)
  from compute_savings_complete [OF assms _ this] obtain sv where
    "compute_savings dm (customer_pairs (length (destinations p))) = Inr sv"
    by auto
  then show ?thesis
    by (auto simp add: savingsAlgorithmVRP_def)
qed

lemma served_routes:
  "concat (map route_customers (map route rs)) = served rs"
  by (simp add: served_def comp_def)


lemma distinct_concat_unique:
  "distinct (concat xss) \<Longrightarrow> m < length xss \<Longrightarrow> m' < length xss \<Longrightarrow>
     k \<in> set (xss ! m) \<Longrightarrow> k \<in> set (xss ! m') \<Longrightarrow> m = m'"
proof (induction xss arbitrary: m m')
  case Nil
  then show ?case by simp
next
  case (Cons xs xss)
  have later: "k \<in> set (concat xss)" if "n < length xss" "k \<in> set (xss ! n)" for n
    using that by (auto intro: nth_mem)
  show ?case
  proof (cases m)
    case 0
    show ?thesis
    proof (cases m')
      case 0
      with \<open>m = 0\<close> show ?thesis by simp
    next
      case (Suc n)
      with Cons.prems \<open>m = 0\<close> later [of n] show ?thesis by auto
    qed
  next
    case (Suc n)
    note m = this
    show ?thesis
    proof (cases m')
      case 0
      with Cons.prems m later [of n] show ?thesis by auto
    next
      case (Suc n')
      with Cons.prems m Cons.IH [of n n'] show ?thesis by simp
    qed
  qed
qed

lemma savings_customers:
  assumes "complete_matrix dm (length (destinations p) + 1)"
  shows "\<exists>rs. savingsAlgorithmVRP p dm = Inr rs
           \<and> mset (concat (map route_customers rs)) = mset [1 ..< length (destinations p) + 1]"
proof -
  from savingsAlgorithmVRP_complete [OF assms] obtain ss where
    ss: "savingsAlgorithmVRP p dm = Inr (map route (merge_loop p ss (initial_routes p)))"
    by blast
  have "mset (served (merge_loop p ss (initial_routes p))) = mset (served (initial_routes p))"
    using merge_loop_invariants [OF initial_routes_ok] by blast
  then have "mset (concat (map route_customers (map route (merge_loop p ss (initial_routes p)))))
               = mset [1 ..< length (destinations p) + 1]"
    by (simp only: served_routes served_initial_routes)
  with ss show ?thesis by blast
qed

section \<open>Savings: customers served\<close>

text \<open>
  Claim C10. Over a complete distance matrix (one row and column for the depot and
  for each customer), \<^verbatim>\<open>savingsAlgorithmVRP\<close> returns routes whose customers are
  exactly the indices \<open>1 .. C\<close>, each once: every customer index is in exactly one of
  the returned routes, whatever the demands and the capacity.
\<close>

theorem savings_serves_every_customer:
  assumes "complete_matrix dm (length (destinations p) + 1)"
  shows "\<exists>rs. savingsAlgorithmVRP p dm = Inr rs
           \<and> mset (concat (map route_customers rs)) = mset [1 ..< length (destinations p) + 1]
           \<and> (\<forall>k. 1 \<le> k \<and> k \<le> length (destinations p) \<longrightarrow>
                  (\<exists>!m. m < length rs \<and> k \<in> set (rs ! m)))"
proof -
  from savings_customers [OF assms] obtain rs where
    rs: "savingsAlgorithmVRP p dm = Inr rs"
    and ms: "mset (concat (map route_customers rs)) = mset [1 ..< length (destinations p) + 1]"
    by blast
  let ?cs = "map route_customers rs"
  have dist: "distinct (concat ?cs)"
    using mset_eq_imp_distinct_iff [OF ms] by simp
  have once: "\<exists>!m. m < length rs \<and> k \<in> set (rs ! m)"
    if k: "1 \<le> k" "k \<le> length (destinations p)" for k
  proof -
    have "k \<in> set (concat ?cs)"
      using mset_eq_setD [OF ms] k by auto
    then obtain xs where xs: "xs \<in> set ?cs" "k \<in> set xs"
      by auto
    from xs(1) obtain m where "m < length ?cs" "?cs ! m = xs"
      by (auto simp add: in_set_conv_nth)
    with xs(2) have m: "m < length rs" "k \<in> set (route_customers (rs ! m))"
      by auto
    then have ex: "m < length rs \<and> k \<in> set (rs ! m)"
      by (simp add: route_customers_def)
    have "m' = m" if "m' < length rs \<and> k \<in> set (rs ! m')" for m'
    proof -
      from that k(1) have "k \<in> set (?cs ! m')"
        by (simp add: route_customers_def)
      moreover from m have "k \<in> set (?cs ! m)"
        by simp
      ultimately show ?thesis
        using distinct_concat_unique [OF dist, of m' m k] that m(1) by simp
    qed
    with ex show ?thesis by blast
  qed
  show ?thesis
    using rs ms once by blast
qed

lemma savings_infeasible_example:
  "savingsAlgorithmVRP (example_problem [10, 10] 1 10) [[0, 3, 4], [3, 0, 2], [4, 2, 0]]
     = Inr [[0, 1, 0], [0, 2, 0]]"
  by (simp add: savingsAlgorithmVRP_def example_problem_def at_origin_def customer_pairs_def
      upt_rec cell_def sort_savings_def initial_routes_def splice1_def)

theorem savings_serves_every_customer_witness:
  "savingsAlgorithmVRP (example_problem [10, 10] 1 10) [[0, 3, 4], [3, 0, 2], [4, 2, 0]]
     = Inr [[0, 1, 0], [0, 2, 0]]
   \<and> mset (concat (map route_customers [[0, 1, 0], [0, 2, 0]])) = mset [1, 2]
   \<and> (\<exists>!m. m < length [[0, 1, 0], [0, 2, 0::nat]] \<and> 2 \<in> set ([[0, 1, 0], [0, 2, 0::nat]] ! m))"
proof -
  let ?p = "example_problem [10, 10] 1 10"
  let ?dm = "[[0, 3, 4], [3, 0, 2], [4, 2, 0::real]]"
  have len: "length (destinations ?p) = 2"
    by (simp add: example_problem_def)
  have upt: "[1 ..< length (destinations ?p) + 1] = [1, 2]"
    unfolding len by (simp add: upt_rec)
  have c: "complete_matrix ?dm (length (destinations ?p) + 1)"
    unfolding len by (simp add: complete_matrix_def)
  from savings_serves_every_customer [OF c] obtain rs where
    rs: "savingsAlgorithmVRP ?p ?dm = Inr rs"
      "mset (concat (map route_customers rs)) = mset [1 ..< length (destinations ?p) + 1]"
      "\<forall>k. 1 \<le> k \<and> k \<le> length (destinations ?p) \<longrightarrow> (\<exists>!m. m < length rs \<and> k \<in> set (rs ! m))"
    by blast
  from rs(1) have eq: "rs = [[0, 1, 0], [0, 2, 0]]"
    by (simp only: savings_infeasible_example sum.inject)
  have "1 \<le> (2::nat) \<and> 2 \<le> length (destinations ?p)"
    unfolding len by simp
  with rs(3) have one: "\<exists>!m. m < length rs \<and> 2 \<in> set (rs ! m)"
    by blast
  show ?thesis
    by (intro conjI) (rule savings_infeasible_example, rule rs(2) [unfolded eq upt],
        rule one [unfolded eq])
qed

section \<open>Savings: number of routes\<close>





section \<open>Nearest neighbour: what the loops keep\<close>

lemma refs_ok_splice1: "refs_ok p us \<Longrightarrow> refs_ok p (splice1 k us)"
  using set_splice1 [of k us] by (auto simp add: refs_ok_def list_all_iff)

lemma mset_ids_splice1:
  "k < length us \<Longrightarrow> mset (ids us) = add_mset (fst (us ! k) + 1) (mset (ids (splice1 k us)))"
proof -
  assume k: "k < length us"
  have "mset (ids us) = image_mset (\<lambda>u. fst u + 1) (mset (splice1 k us) + {#us ! k#})"
    by (simp only: mset_splice1 [OF k] ids_def mset_map)
  then show ?thesis
    by (simp add: ids_def)
qed

lemma build_route_result:
  "build_route p dm r pos ld us = Inr (r', us') \<Longrightarrow> refs_ok p us \<Longrightarrow>
     refs_ok p us'
     \<and> (\<exists>added. r' = r @ added
           \<and> mset (ids us) = mset added + mset (ids us')
           \<and> 0 \<notin> set added
           \<and> (added = []
               \<or> ld + sum_list (map (\<lambda>k. demand (destinations p ! (k - 1))) added)
                    \<le> vehicleCapacity p))"
proof (induction p dm r pos ld us arbitrary: r' us' rule: build_route.induct)
  case (1 p dm r pos ld us)
  show ?case
  proof (cases "us = []")
    case True
    with "1.prems" show ?thesis
      by (simp add: build_route.simps)
  next
    case False
    note ne = this
    from "1.prems"(1) ne obtain b where sc: "nearest_scan p dm pos ld us 0 None = Inr b"
      by (cases "nearest_scan p dm pos ld us 0 None") (simp_all add: build_route.simps)
    show ?thesis
    proof (cases b)
      case None
      with "1.prems" ne sc show ?thesis
        by (simp add: build_route.simps)
    next
      case (Some kd)
      obtain k d where kd: "kd = (k, d)" by (cases kd)
      from nearest_scan_index [of p dm pos ld us 0 None k d] sc Some kd
      have k: "k < length us" and fits: "ld + demand (snd (us ! k)) \<le> vehicleCapacity p"
        by simp_all
      let ?next = "fst (us ! k) + 1"
      let ?ld = "ld + demand (snd (us ! k))"
      have rec: "build_route p dm (r @ [?next]) ?next ?ld (splice1 k us) = Inr (r', us')"
        using "1.prems"(1) ne sc Some kd
        by (subst (asm) build_route.simps) (simp add: Let_def)
      have ok1: "refs_ok p (splice1 k us)"
        by (rule refs_ok_splice1 [OF "1.prems"(2)])
      from "1.IH" [OF ne sc Some kd [symmetric] refl refl refl rec ok1]
      obtain added where ok': "refs_ok p us'"
        and r': "r' = (r @ [?next]) @ added"
        and ms: "mset (ids (splice1 k us)) = mset added + mset (ids us')"
        and nz: "0 \<notin> set added"
        and ld: "added = []
                 \<or> ?ld + sum_list (map (\<lambda>k. demand (destinations p ! (k - 1))) added)
                     \<le> vehicleCapacity p"
        by blast
      have dem: "demand (destinations p ! (?next - 1)) = demand (snd (us ! k))"
        using "1.prems"(2) k by (simp add: refs_ok_def list_all_length)
      have "r' = r @ (?next # added)"
        using r' by simp
      moreover have "mset (ids us) = mset (?next # added) + mset (ids us')"
        using mset_ids_splice1 [OF k] ms by simp
      moreover have "0 \<notin> set (?next # added)"
        using nz by simp
      moreover have "ld + sum_list (map (\<lambda>k. demand (destinations p ! (k - 1))) (?next # added))
                      \<le> vehicleCapacity p"
        using ld fits dem by (auto simp add: add.assoc)
      ultimately show ?thesis
        using ok' by blast
    qed
  qed
qed

lemma route_customers_framed:
  "0 \<notin> set added \<Longrightarrow> route_customers (([0] @ added) @ [0]) = added"
  by (induction added) (auto simp add: route_customers_def)

lemma nn_inv_step:
  assumes "build_route p dm [0] 0 0 us = Inr (r, us')" and "nn_inv p us rs"
  shows "nn_inv p us' (if length (r @ [0]) > 2 then rs @ [r @ [0]] else rs)"
proof -
  from assms(2) have ok: "refs_ok p us"
    and ms: "mset (ids us) + mset (concat (map route_customers rs))
               = mset [1 ..< length (destinations p) + 1]"
    and ld: "list_all (\<lambda>r. route_load p r \<le> vehicleCapacity p) rs"
    by (simp_all add: nn_inv_def)
  from build_route_result [OF assms(1) ok] obtain added where
    ok': "refs_ok p us'" and r: "r = [0] @ added"
    and ms': "mset (ids us) = mset added + mset (ids us')"
    and nz: "0 \<notin> set added"
    and fit: "added = []
              \<or> 0 + sum_list (map (\<lambda>k. demand (destinations p ! (k - 1))) added)
                   \<le> vehicleCapacity p"
    by blast
  have cust: "route_customers (r @ [0]) = added"
    unfolding r by (rule route_customers_framed [OF nz])
  show ?thesis
  proof (cases "added = []")
    case True
    with r ms ms' ok' ld show ?thesis
      by (simp add: nn_inv_def)
  next
    case False
    then have long: "length (r @ [0]) > 2"
      using r by (cases added) simp_all
    have "route_load p (r @ [0]) \<le> vehicleCapacity p"
      using fit False by (simp add: route_load_def cust)
    moreover have "mset (ids us') + mset (concat (map route_customers (rs @ [r @ [0]])))
                     = mset [1 ..< length (destinations p) + 1]"
      using ms ms' by (simp add: cust ac_simps del: mset_upt)
    ultimately show ?thesis
      using long ok' ld by (simp add: nn_inv_def del: mset_upt)
  qed
qed

lemma nn_first_inv:
  "nn_first p dm v us rs = Inr (us', rs') \<Longrightarrow> nn_inv p us rs \<Longrightarrow> nn_inv p us' rs'"
proof (induction p dm v us rs rule: nn_first.induct)
  case (1 p dm v us rs)
  show ?case
  proof (cases "v < numVehicles p \<and> us \<noteq> []")
    case False
    with "1.prems" show ?thesis
      by (subst (asm) nn_first.simps) auto
  next
    case True
    from "1.prems"(1) True obtain b where b: "build_route p dm [0] 0 0 us = Inr b"
      by (subst (asm) nn_first.simps) (cases "build_route p dm [0] 0 0 us", simp_all)
    obtain r us1 where b': "b = (r, us1)" by (cases b)
    let ?rs1 = "if 2 < length (r @ [0]) then rs @ [r @ [0]] else rs"
    have rec: "nn_first p dm (v + 1) us1 ?rs1 = Inr (us', rs')"
      using "1.prems"(1) True b b' by (subst (asm) nn_first.simps) simp
    have "nn_inv p us1 ?rs1"
      using nn_inv_step [OF b [unfolded b'] "1.prems"(2)] .
    from "1.IH" [OF True b b' [symmetric] rec this] show ?thesis .
  qed
qed

lemma nn_extra_inv:
  "nn_extra p dm us rs = Some res \<Longrightarrow> nn_inv p us rs \<Longrightarrow> res = Inr rs' \<Longrightarrow>
     \<exists>us'. nn_inv p us' rs'"
proof (induction arbitrary: rs' rule: nn_extra.raw_induct [rotated 1, consumes 1])
  case (1 nn_extra p dm us rs res)
  from "1.prems" have inv: "nn_inv p us rs" and res: "res = Inr rs'"
    by simp_all
  note body = "1.hyps"
  show ?case
  proof (cases "us \<noteq> [] \<and> length rs < numVehicles p")
    case False
    with body res have "rs' = rs"
      by auto
    with inv show ?thesis by blast
  next
    case True
    show ?thesis
    proof (cases "build_route p dm [0] 0 0 us")
      case (Inl e)
      with body True res show ?thesis by simp
    next
      case (Inr b)
      obtain r us1 where b: "b = (r, us1)" by (cases b)
      let ?rs1 = "if 2 < length (r @ [0]) then rs @ [r @ [0]] else rs"
      have rec: "nn_extra p dm us1 ?rs1 = Some res"
        using body True Inr b by simp
      have "nn_inv p us1 ?rs1"
        using nn_inv_step [OF Inr [unfolded b] inv] .
      from "1.IH" [OF rec this res] show ?thesis .
    qed
  qed
qed

lemma nn_inv_initial: "nn_inv p (enumerate 0 (destinations p)) []"
proof -
  have "refs_ok p (enumerate 0 (destinations p))"
    by (simp add: refs_ok_def list_all_iff in_set_enumerate_eq)
  moreover have "ids (enumerate 0 (destinations p)) = [1 ..< length (destinations p) + 1]"
  proof -
    have "ids (enumerate 0 (destinations p)) = map Suc (map fst (enumerate 0 (destinations p)))"
      by (simp only: ids_def map_map comp_def Suc_eq_plus1)
    also have "\<dots> = map Suc [0 ..< length (destinations p)]"
      by (simp only: map_fst_enumerate add_0)
    also have "\<dots> = [1 ..< length (destinations p) + 1]"
      by (simp add: map_Suc_upt)
    finally show ?thesis .
  qed
  ultimately show ?thesis
    by (simp add: nn_inv_def del: mset_upt)
qed

lemma nearestNeighborVRP_inv:
  assumes "nearestNeighborVRP p dm = Some (Inr rs)"
  shows "\<exists>us. nn_inv p us rs"
proof (cases "nn_first p dm 0 (enumerate 0 (destinations p)) []")
  case (Inl e)
  with assms show ?thesis by (simp add: nearestNeighborVRP_def)
next
  case (Inr b)
  obtain us1 rs1 where b: "b = (us1, rs1)" by (cases b)
  have "nn_inv p us1 rs1"
    using nn_first_inv [OF Inr [unfolded b] nn_inv_initial] .
  moreover have "nn_extra p dm us1 rs1 = Some (Inr rs)"
    using assms Inr b by (simp add: nearestNeighborVRP_def)
  ultimately show ?thesis
    using nn_extra_inv by blast
qed

lemma distinct_from_partition:
  assumes "M + mset xs = mset ys" and "distinct ys"
  shows "distinct xs"
proof -
  obtain zs where "mset zs = M" using ex_mset by blast
  with assms(1) have "mset (zs @ xs) = mset ys" by simp
  from mset_eq_imp_distinct_iff [OF this] assms(2) show ?thesis by simp
qed

lemma nearestNeighborVRP_distinct:
  "nearestNeighborVRP p dm = Some (Inr rs) \<Longrightarrow> distinct (concat (map route_customers rs))"
proof -
  assume "nearestNeighborVRP p dm = Some (Inr rs)"
  from nearestNeighborVRP_inv [OF this] obtain us where
    "mset (ids us) + mset (concat (map route_customers rs))
       = mset [1 ..< length (destinations p) + 1]"
    by (auto simp add: nn_inv_def simp del: mset_upt)
  then show ?thesis
    by (rule distinct_from_partition) simp
qed

lemma nearestNeighborVRP_capacity:
  "nearestNeighborVRP p dm = Some (Inr rs) \<Longrightarrow>
     list_all (\<lambda>r. route_load p r \<le> vehicleCapacity p) rs"
  using nearestNeighborVRP_inv [of p dm rs] by (auto simp add: nn_inv_def)

section \<open>Nearest neighbour: when it returns\<close>

text \<open>Over a complete matrix, when no single demand exceeds the capacity, every route
  started with customers left takes at least one of them, and
  \<^verbatim>\<open>nearestNeighborVRP\<close> returns.\<close>

lemma nearest_scan_keeps_some:
  "pos < length dm \<Longrightarrow> \<exists>b'. nearest_scan p dm pos ld us i (Some b) = Inr (Some b')"
proof (induction us arbitrary: i b)
  case Nil
  then show ?case by simp
next
  case (Cons u us)
  obtain c where c: "cell dm pos (fst u + 1) = Inr c"
    using Cons.prems by (auto simp add: cell_def)
  show ?case
    using Cons.IH [OF Cons.prems] c
    by (cases c) (auto simp add: Let_def)
qed

lemma nearest_scan_none_is_ok:
  "pos < length dm \<Longrightarrow> \<exists>b'. nearest_scan p dm pos ld us i b = Inr b'"
proof (induction us arbitrary: i b)
  case Nil
  then show ?case by simp
next
  case (Cons u us)
  obtain c where c: "cell dm pos (fst u + 1) = Inr c"
    using Cons.prems by (auto simp add: cell_def)
  show ?case
    using Cons.IH [OF Cons.prems] c by (simp add: Let_def)
qed

lemma nearest_scan_finds:
  assumes "complete_matrix dm n" and "pos < n" and "fst u + 1 < n"
    and "ld + demand (snd u) \<le> vehicleCapacity p"
  shows "\<exists>b'. nearest_scan p dm pos ld (u # us) i None = Inr (Some b')"
proof -
  have c: "cell dm pos (fst u + 1) = Inr (Num (dm ! pos ! (fst u + 1)))"
    by (rule cell_complete [OF assms(1,2,3)])
  have "pos < length dm"
    using assms(1,2) by (simp add: complete_matrix_def)
  from nearest_scan_keeps_some [OF this] show ?thesis
    using c assms(4) by (simp add: Let_def)
qed

lemma build_route_returns:
  "complete_matrix dm (length (destinations p) + 1) \<Longrightarrow>
     pos < length (destinations p) + 1 \<Longrightarrow> refs_ok p us \<Longrightarrow>
     \<exists>res. build_route p dm r pos ld us = Inr res"
proof (induction p dm r pos ld us rule: build_route.induct)
  case (1 p dm r pos ld us)
  from "1.prems" have c: "complete_matrix dm (length (destinations p) + 1)"
    and pos: "pos < length (destinations p) + 1" and ok: "refs_ok p us"
    by simp_all
  show ?case
  proof (cases "us = []")
    case True
    then show ?thesis by (simp add: build_route.simps)
  next
    case False
    have "pos < length dm"
      using c pos by (simp add: complete_matrix_def)
    from nearest_scan_none_is_ok [OF this] obtain b where
      sc: "nearest_scan p dm pos ld us 0 None = Inr b"
      by blast
    show ?thesis
    proof (cases b)
      case None
      with False sc show ?thesis by (simp add: build_route.simps)
    next
      case (Some kd)
      obtain k d where kd: "kd = (k, d)" by (cases kd)
      from nearest_scan_index [of p dm pos ld us 0 None k d] sc Some kd
      have k: "k < length us"
        by simp
      have pos': "fst (us ! k) + 1 < length (destinations p) + 1"
        using ok k by (simp add: refs_ok_def list_all_length)
      from "1.IH" [OF False sc Some kd [symmetric] refl refl refl c pos'
          refs_ok_splice1 [OF ok]]
      show ?thesis
        using False sc Some kd by (subst build_route.simps) (simp add: Let_def)
    qed
  qed
qed

lemma build_route_progress:
  assumes c: "complete_matrix dm (length (destinations p) + 1)"
    and fit: "list_all (\<lambda>c. demand c \<le> vehicleCapacity p) (destinations p)"
    and ok: "refs_ok p us" and ne: "us \<noteq> []"
    and b: "build_route p dm [0] 0 0 us = Inr (r, us')"
  shows "length us' < length us \<and> refs_ok p us'"
proof -
  obtain u rest where us: "us = u # rest"
    using ne by (cases us) auto
  have u: "fst u < length (destinations p)" "snd u = destinations p ! fst u"
    using ok us by (simp_all add: refs_ok_def)
  then have "0 + demand (snd u) \<le> vehicleCapacity p"
    using fit by (simp add: list_all_length)
  from nearest_scan_finds [OF c _ _ this, of 0 rest 0] u(1) obtain kd where
    sc: "nearest_scan p dm 0 0 us 0 None = Inr (Some kd)"
    unfolding us by auto
  obtain k d where kd: "kd = (k, d)" by (cases kd)
  from nearest_scan_index [of p dm 0 0 us 0 None k d] sc kd
  have k: "k < length us"
    by simp
  have rec: "build_route p dm ([0] @ [fst (us ! k) + 1]) (fst (us ! k) + 1)
               (0 + demand (snd (us ! k))) (splice1 k us) = Inr (r, us')"
    using b ne sc kd by (subst (asm) build_route.simps) (simp add: Let_def)
  from build_route_result [OF rec refs_ok_splice1 [OF ok]] obtain added where
    ok': "refs_ok p us'" and "mset (ids (splice1 k us)) = mset added + mset (ids us')"
    by blast
  then have "length (ids (splice1 k us)) = length added + length (ids us')"
    by (metis size_mset size_union)
  then have "length us' \<le> length (splice1 k us)"
    by (simp add: ids_def)
  then show ?thesis
    using ok' k by (simp add: length_splice1)
qed

lemma nn_extra_returns:
  assumes c: "complete_matrix dm (length (destinations p) + 1)"
    and fit: "list_all (\<lambda>c. demand c \<le> vehicleCapacity p) (destinations p)"
  shows "refs_ok p us \<Longrightarrow> \<exists>rs'. nn_extra p dm us rs = Some (Inr rs')"
proof (induction "length us" arbitrary: us rs rule: less_induct)
  case less
  show ?case
  proof (cases "us \<noteq> [] \<and> length rs < numVehicles p")
    case False
    then show ?thesis
      by (subst nn_extra.simps) auto
  next
    case True
    from build_route_returns [OF c _ less.prems, of 0 "[0]" 0] obtain res where
      b: "build_route p dm [0] 0 0 us = Inr res"
      by auto
    obtain r us' where res: "res = (r, us')" by (cases res)
    from build_route_progress [OF c fit less.prems _ b [unfolded res]] True
    have "length us' < length us" and "refs_ok p us'"
      by simp_all
    from less.hyps [OF this] show ?thesis
      using True b res by (subst nn_extra.simps) simp
  qed
qed

lemma nn_first_returns:
  "complete_matrix dm (length (destinations p) + 1) \<Longrightarrow> refs_ok p us \<Longrightarrow>
     \<exists>us' rs'. nn_first p dm v us rs = Inr (us', rs') \<and> refs_ok p us'"
proof (induction p dm v us rs rule: nn_first.induct)
  case (1 p dm v us rs)
  from "1.prems" have c: "complete_matrix dm (length (destinations p) + 1)"
    and ok: "refs_ok p us"
    by simp_all
  show ?case
  proof (cases "v < numVehicles p \<and> us \<noteq> []")
    case False
    with ok show ?thesis
      by (subst nn_first.simps) auto
  next
    case True
    from build_route_returns [OF c _ ok, of 0 "[0]" 0] obtain res where
      b: "build_route p dm [0] 0 0 us = Inr res"
      by auto
    obtain r us1 where res: "res = (r, us1)" by (cases res)
    have "refs_ok p us1"
      using build_route_result [OF b [unfolded res] ok] by blast
    from "1.IH" [OF True b res [symmetric] c this] show ?thesis
      using True b res by (subst nn_first.simps) simp
  qed
qed

lemma refs_ok_enumerate: "refs_ok p (enumerate 0 (destinations p))"
  by (simp add: refs_ok_def list_all_iff in_set_enumerate_eq)

lemma nearestNeighborVRP_returns:
  assumes "complete_matrix dm (length (destinations p) + 1)"
    and "list_all (\<lambda>c. demand c \<le> vehicleCapacity p) (destinations p)"
  shows "\<exists>rs. nearestNeighborVRP p dm = Some (Inr rs)"
proof -
  from nn_first_returns [OF assms(1) refs_ok_enumerate, of 0 "[]"] obtain us rs where
    f: "nn_first p dm 0 (enumerate 0 (destinations p)) [] = Inr (us, rs)" and ok: "refs_ok p us"
    by blast
  from nn_extra_returns [OF assms ok, of rs] show ?thesis
    using f by (simp add: nearestNeighborVRP_def)
qed

section \<open>Runs of the constructors on the example problems\<close>

lemma nn_extra_done:
  "\<not> (us \<noteq> [] \<and> length rs < numVehicles p) \<Longrightarrow> nn_extra p dm us rs = Some (Inr rs)"
  by (subst nn_extra.simps) auto

lemma nn_line_example:
  "nearestNeighborVRP (example_problem [5, 5, 5] 2 10)
     [[0, 1, 2, 3], [1, 0, 1, 2], [2, 1, 0, 1], [3, 2, 1, 0]]
   = Some (Inr [[0, 1, 2, 0], [0, 3, 0]])"
  by (simp add: nearestNeighborVRP_def nn_first.simps build_route.simps nn_extra_done
      example_problem_def at_origin_def enumerate_eq_zip upt_rec cell_def splice1_def)

lemma nn_first_overweight_example:
  "nn_first (example_problem [4, 10] 3 5) [[0, 1, 2], [1, 0, 1], [2, 1, 0]] 0
     (enumerate 0 (destinations (example_problem [4, 10] 3 5))) []
   = Inr ([(1, at_origin ''C'' 10)], [[0, 1, 0]])"
  by (simp add: nn_first.simps build_route.simps
      example_problem_def enumerate_eq_zip upt_rec cell_def splice1_def) (simp add: at_origin_def)

lemma build_route_overweight_example:
  "build_route (example_problem [4, 10] 3 5) [[0, 1, 2], [1, 0, 1], [2, 1, 0]] [0] 0 0
     [(1, at_origin ''C'' 10)]
   = Inr ([0], [(1, at_origin ''C'' 10)])"
  by (simp add: build_route.simps example_problem_def cell_def at_origin_def)

lemma savings_overweight_example:
  "savingsAlgorithmVRP (example_problem [4, 10] 3 5) [[0, 1, 2], [1, 0, 1], [2, 1, 0]]
     = Inr [[0, 1, 0], [0, 2, 0]]"
  by (simp add: savingsAlgorithmVRP_def example_problem_def at_origin_def customer_pairs_def
      upt_rec cell_def sort_savings_def initial_routes_def splice1_def)


lemma nn_extra_stuck:
  assumes "build_route p dm [0] 0 0 us = Inr ([0], us)" and "us \<noteq> []"
    and "length rs < numVehicles p"
  shows "nn_extra p dm us rs = None"
proof (rule ccontr)
  assume "nn_extra p dm us rs \<noteq> None"
  then obtain res where "nn_extra p dm us rs = Some res"
    by auto
  then have "\<not> (build_route p dm [0] 0 0 us = Inr ([0], us) \<and> us \<noteq> []
                \<and> length rs < numVehicles p)"
  proof (induction rule: nn_extra.raw_induct [rotated 1, consumes 1])
    case (1 nn_extra p dm us rs res)
    show ?case
    proof
      assume stuck: "build_route p dm [0] 0 0 us = Inr ([0], us) \<and> us \<noteq> []
                       \<and> length rs < numVehicles p"
      with "1.hyps" have "nn_extra p dm us rs = Some res"
        by simp
      from "1.IH" [OF this] stuck show False
        by simp
    qed
  qed
  with assms show False
    by simp
qed

lemma savings_result_form:
  "savingsAlgorithmVRP p dm = Inr rs \<Longrightarrow>
     \<exists>ss. rs = map route (merge_loop p ss (initial_routes p))"
  by (auto simp add: savingsAlgorithmVRP_def split: sum.splits)

lemma merge_step_single:
  assumes "list_all (\<lambda>e. load e \<le> vehicleCapacity p \<or> length (route_customers (route e)) = 1) rs"
  shows "list_all (\<lambda>e. load e \<le> vehicleCapacity p \<or> length (route_customers (route e)) = 1)
           (merge_step p s rs)"
proof (cases p s rs rule: merge_step_cases)
  case same
  then show ?thesis using assms by simp
next
  case (merged a b)
  have "set (splice1 (min a b) (splice1 (max a b) rs)) \<subseteq> set rs"
    using set_splice1 [of "min a b" "splice1 (max a b) rs"] set_splice1 [of "max a b" rs]
    by blast
  then have "list_all (\<lambda>e. load e \<le> vehicleCapacity p \<or> length (route_customers (route e)) = 1)
               (splice1 (min a b) (splice1 (max a b) rs))"
    using assms by (auto simp add: list_all_iff)
  then show ?thesis
    using merged(4,5) by (simp add: join_entries_def)
qed

lemma merge_loop_single:
  "list_all (\<lambda>e. load e \<le> vehicleCapacity p \<or> length (route_customers (route e)) = 1) rs \<Longrightarrow>
     list_all (\<lambda>e. load e \<le> vehicleCapacity p \<or> length (route_customers (route e)) = 1)
       (merge_loop p ss rs)"
proof (induction ss arbitrary: rs)
  case Nil
  then show ?case by simp
next
  case (Cons s ss)
  show ?case
  proof (cases "length rs \<le> numVehicles p")
    case True
    then show ?thesis using Cons.prems by simp
  next
    case False
    from Cons.IH [OF merge_step_single [OF Cons.prems, of s]] False
    show ?thesis by simp
  qed
qed

lemma initial_routes_single:
  "list_all (\<lambda>e. load e \<le> vehicleCapacity p \<or> length (route_customers (route e)) = 1)
     (initial_routes p)"
  by (simp add: initial_routes_def list_all_iff route_customers_def)

lemma savings_capacity:
  assumes "savingsAlgorithmVRP p dm = Inr rs"
  shows "list_all (\<lambda>r. route_load p r \<le> vehicleCapacity p \<or> length (route_customers r) = 1) rs"
    and "list_all (\<lambda>c. demand c \<le> vehicleCapacity p) (destinations p) \<Longrightarrow>
           list_all (\<lambda>r. route_load p r \<le> vehicleCapacity p) rs"
proof -
  from savings_result_form [OF assms] obtain ss where
    rs: "rs = map route (merge_loop p ss (initial_routes p))"
    by blast
  let ?es = "merge_loop p ss (initial_routes p)"
  have ok: "list_all (entry_ok p) ?es"
    using merge_loop_invariants [OF initial_routes_ok] by blast
  have single: "list_all (\<lambda>e. load e \<le> vehicleCapacity p \<or> length (route_customers (route e)) = 1) ?es"
    by (rule merge_loop_single [OF initial_routes_single])
  show "list_all (\<lambda>r. route_load p r \<le> vehicleCapacity p \<or> length (route_customers r) = 1) rs"
    using ok single by (auto simp add: rs list_all_iff entry_ok_def)
  assume "list_all (\<lambda>c. demand c \<le> vehicleCapacity p) (destinations p)"
  then have "list_all (\<lambda>e. load e \<le> vehicleCapacity p) ?es"
    by (intro merge_loop_load initial_routes_load)
  then show "list_all (\<lambda>r. route_load p r \<le> vehicleCapacity p) rs"
    using ok by (auto simp add: rs list_all_iff entry_ok_def)
qed

lemma savings_distinct:
  assumes "savingsAlgorithmVRP p dm = Inr rs"
  shows "distinct (concat (map route_customers rs))"
proof -
  from savings_result_form [OF assms] obtain ss where
    rs: "rs = map route (merge_loop p ss (initial_routes p))"
    by blast
  have "mset (served (merge_loop p ss (initial_routes p))) = mset (served (initial_routes p))"
    using merge_loop_invariants [OF initial_routes_ok] by blast
  then have "mset (concat (map route_customers rs)) = mset [1 ..< length (destinations p) + 1]"
    by (simp only: rs served_routes served_initial_routes)
  from mset_eq_imp_distinct_iff [OF this] show ?thesis
    by simp
qed

section \<open>Constructors: capacity of the routes\<close>

text \<open>
  Claim C2, as the code has it. Every route \<^verbatim>\<open>nearestNeighborVRP\<close> returns carries at
  most \<^verbatim>\<open>vehicleCapacity\<close>. Every route \<^verbatim>\<open>savingsAlgorithmVRP\<close> returns carries at
  most \<^verbatim>\<open>vehicleCapacity\<close> or serves a single customer (the initial route of a
  customer is never tested against the capacity); so all its routes are within capacity
  when no single demand exceeds it.
\<close>

theorem constructors_capacity:
  "(nearestNeighborVRP p dm = Some (Inr rs) \<longrightarrow>
      list_all (\<lambda>r. route_load p r \<le> vehicleCapacity p) rs)
   \<and> (savingsAlgorithmVRP p dm = Inr rs' \<longrightarrow>
        list_all (\<lambda>r. route_load p r \<le> vehicleCapacity p \<or> length (route_customers r) = 1) rs'
        \<and> (list_all (\<lambda>c. demand c \<le> vehicleCapacity p) (destinations p) \<longrightarrow>
              list_all (\<lambda>r. route_load p r \<le> vehicleCapacity p) rs'))"
  using nearestNeighborVRP_capacity [of p dm rs] savings_capacity [of p dm rs']
  by blast

lemma savings_line_example:
  "savingsAlgorithmVRP (example_problem [5, 5, 5] 2 10)
     [[0, 1, 2, 3], [1, 0, 1, 2], [2, 1, 0, 1], [3, 2, 1, 0]]
   = Inr [[0, 1, 0], [0, 2, 3, 0]]"
  by (simp add: savingsAlgorithmVRP_def example_problem_def at_origin_def customer_pairs_def
      upt_rec cell_def sort_savings_def initial_routes_def splice1_def)

theorem constructors_capacity_witness:
  "list_all (\<lambda>r. route_load (example_problem [5, 5, 5] 2 10) r
                  \<le> vehicleCapacity (example_problem [5, 5, 5] 2 10))
     [[0, 1, 2, 0], [0, 3, 0]]
   \<and> list_all (\<lambda>r. route_load (example_problem [5, 5, 5] 2 10) r
                  \<le> vehicleCapacity (example_problem [5, 5, 5] 2 10))
     [[0, 1, 0], [0, 2, 3, 0]]"
proof -
  let ?p = "example_problem [5, 5, 5] 2 10"
  have fits: "list_all (\<lambda>c. demand c \<le> vehicleCapacity ?p) (destinations ?p)"
    by (simp add: example_problem_def at_origin_def)
  show ?thesis
    using constructors_capacity [of ?p
        "[[0, 1, 2, 3], [1, 0, 1, 2], [2, 1, 0, 1], [3, 2, 1, 0]]"
        "[[0, 1, 2, 0], [0, 3, 0]]" "[[0, 1, 0], [0, 2, 3, 0]]"]
      nn_line_example savings_line_example fits
    by blast
qed

text \<open>
  Claim C2 as stated fails for the savings constructor when one customer demands more
  than a vehicle holds: demands 4 and 10, three vehicles of capacity 5 (total demand
  14, total capacity 15; the problem has the stated invariants and the matrix is
  complete). The route \<^verbatim>\<open>[0, 2, 0]\<close> is returned with load 10.
\<close>

theorem savings_capacity_counterexample:
  "1 \<le> numVehicles (example_problem [4, 10] 3 5)
   \<and> 0 < vehicleCapacity (example_problem [4, 10] 3 5)
   \<and> list_all (\<lambda>c. 0 < demand c) (destinations (example_problem [4, 10] 3 5))
   \<and> complete_matrix [[0, 1, 2], [1, 0, 1], [2, 1, 0]] 3
   \<and> savingsAlgorithmVRP (example_problem [4, 10] 3 5) [[0, 1, 2], [1, 0, 1], [2, 1, 0]]
       = Inr [[0, 1, 0], [0, 2, 0]]
   \<and> \<not> route_load (example_problem [4, 10] 3 5) [0, 2, 0]
         \<le> vehicleCapacity (example_problem [4, 10] 3 5)"
  by (simp add: savingsAlgorithmVRP_def example_problem_def at_origin_def customer_pairs_def
      upt_rec cell_def sort_savings_def initial_routes_def splice1_def complete_matrix_def
      route_load_def route_customers_def)

section \<open>Constructors: no customer served twice\<close>

text \<open>
  Claim C8. In the list of routes returned by one call of \<^verbatim>\<open>nearestNeighborVRP\<close>, and
  in the list returned by one call of \<^verbatim>\<open>savingsAlgorithmVRP\<close>, no customer index
  occurs twice, neither within a route nor in two routes.
\<close>

theorem constructors_no_repeated_customer:
  "(nearestNeighborVRP p dm = Some (Inr rs) \<longrightarrow> distinct (concat (map route_customers rs)))
   \<and> (savingsAlgorithmVRP p dm = Inr rs' \<longrightarrow> distinct (concat (map route_customers rs')))"
  using nearestNeighborVRP_distinct [of p dm rs] savings_distinct [of p dm rs']
  by blast

theorem constructors_no_repeated_customer_witness:
  "distinct (concat (map route_customers [[0, 1, 2, 0], [0, 3, 0]]))
   \<and> distinct (concat (map route_customers [[0, 1, 0], [0, 2, 3, 0]]))"
  using constructors_no_repeated_customer [of "example_problem [5, 5, 5] 2 10"
      "[[0, 1, 2, 3], [1, 0, 1, 2], [2, 1, 0, 1], [3, 2, 1, 0]]"
      "[[0, 1, 2, 0], [0, 3, 0]]" "[[0, 1, 0], [0, 2, 3, 0]]"]
    nn_line_example savings_line_example
  by blast

section \<open>Nearest neighbour: termination\<close>

lemma nn_overweight_example:
  "nearestNeighborVRP (example_problem [4, 10] 3 5) [[0, 1, 2], [1, 0, 1], [2, 1, 0]] = None"
proof -
  let ?p = "example_problem [4, 10] 3 5"
  have "length [[0, 1, 0::nat]] < numVehicles ?p"
    by (simp add: example_problem_def)
  from nn_extra_stuck [OF build_route_overweight_example _ this]
  show ?thesis
    by (simp only: nearestNeighborVRP_def nn_first_overweight_example sum.case prod.case) simp
qed

text \<open>
  Claim C3 fails on the code. Demands 4 and 10, three vehicles of capacity 5 (total
  demand 14 is within the total capacity 15, so \<^verbatim>\<open>validateProblem\<close> accepts the
  problem). The first loop serves customer 1 and leaves customer 2, which fits no
  vehicle. The second loop then builds the route \<^verbatim>\<open>[0, 0]\<close>, discards it, and finds
  \<^verbatim>\<open>unvisited\<close> and \<^verbatim>\<open>vehicleRoutes\<close> as they were: it never ends.
\<close>

theorem nearestNeighborVRP_overweight_diverges:
  "1 \<le> numVehicles (example_problem [4, 10] 3 5)
   \<and> 0 < vehicleCapacity (example_problem [4, 10] 3 5)
   \<and> list_all (\<lambda>c. 0 < demand c) (destinations (example_problem [4, 10] 3 5))
   \<and> complete_matrix [[0, 1, 2], [1, 0, 1], [2, 1, 0]] 3
   \<and> nearestNeighborVRP (example_problem [4, 10] 3 5) [[0, 1, 2], [1, 0, 1], [2, 1, 0]] = None"
proof (intro conjI)
  show "nearestNeighborVRP (example_problem [4, 10] 3 5) [[0, 1, 2], [1, 0, 1], [2, 1, 0]] = None"
    by (rule nn_overweight_example)
qed (simp_all add: example_problem_def at_origin_def complete_matrix_def)

section \<open>Feasibility check\<close>

text \<open>
  Claim C1, as the code has it. When the total demand exceeds
  \<^verbatim>\<open>numVehicles * vehicleCapacity\<close>, \<^verbatim>\<open>validateProblem\<close> shows the warning and
  returns \<^verbatim>\<open>false\<close>, and \<^verbatim>\<open>solveVRP\<close> returns at once: whatever the selection and
  the matrices, no constructor runs and no solution is produced.
\<close>

theorem solveVRP_aborts_when_demand_exceeds_capacity:
  assumes "sum_list (map demand (destinations p)) > real (numVehicles p) * vehicleCapacity p"
  shows "validateProblem p
           = ([DemandExceedsCapacity (sum_list (map demand (destinations p)))
                 (real (numVehicles p) * vehicleCapacity p)], False)
       \<and> solveVRP p sel dm tm
           = Some (Aborted [DemandExceedsCapacity (sum_list (map demand (destinations p)))
                 (real (numVehicles p) * vehicleCapacity p)])"
proof -
  have "foldl (\<lambda>sum d. sum + demand d) a cs = a + sum_list (map demand cs)" for a cs
    by (induction cs arbitrary: a) simp_all
  from this [of 0 "destinations p"]
  have "foldl (\<lambda>sum d. sum + demand d) 0 (destinations p)
          = sum_list (map demand (destinations p))"
    by simp
  with assms show ?thesis
    by (simp add: validateProblem_def solveVRP_def Let_def)
qed

theorem solveVRP_aborts_when_demand_exceeds_capacity_witness:
  "validateProblem (example_problem [10, 10] 1 10) = ([DemandExceedsCapacity 20 10], False)
   \<and> solveVRP (example_problem [10, 10] 1 10)
        \<lparr>useNearestNeighbor = True, useSavings = True, use2Opt = False\<rparr>
        [[0, 3, 4], [3, 0, 2], [4, 2, 0]] [[0, 3, 4], [3, 0, 2], [4, 2, 0]]
       = Some (Aborted [DemandExceedsCapacity 20 10])"
proof -
  let ?p = "example_problem [10, 10] 1 10"
  have d: "sum_list (map demand (destinations ?p)) = 20"
    and c: "real (numVehicles ?p) * vehicleCapacity ?p = 10"
    by (simp_all add: example_problem_def at_origin_def)
  have "sum_list (map demand (destinations ?p)) > real (numVehicles ?p) * vehicleCapacity ?p"
    unfolding d c by simp
  from solveVRP_aborts_when_demand_exceeds_capacity [OF this] show ?thesis
    unfolding d c .
qed

text \<open>
  Claim C1 as stated fails: with a depot, two customers of demand 10 and one vehicle
  of capacity 10, both constructors selected, \<^verbatim>\<open>solveVRP\<close> shows the warning and stops;
  it displays no solution, although the savings constructor alone would return routes
  for this problem.
\<close>

theorem solveVRP_infeasible_counterexample:
  "depot (example_problem [10, 10] 1 10) \<noteq> None
   \<and> solveVRP (example_problem [10, 10] 1 10)
        \<lparr>useNearestNeighbor = True, useSavings = True, use2Opt = False\<rparr>
        [[0, 3, 4], [3, 0, 2], [4, 2, 0]] [[0, 3, 4], [3, 0, 2], [4, 2, 0]]
       = Some (Aborted [DemandExceedsCapacity 20 10])
   \<and> savingsAlgorithmVRP (example_problem [10, 10] 1 10) [[0, 3, 4], [3, 0, 2], [4, 2, 0]]
       = Inr [[0, 1, 0], [0, 2, 0]]"
proof (intro conjI)
  show "depot (example_problem [10, 10] 1 10) \<noteq> None"
    by (simp add: example_problem_def)
  show "solveVRP (example_problem [10, 10] 1 10)
          \<lparr>useNearestNeighbor = True, useSavings = True, use2Opt = False\<rparr>
          [[0, 3, 4], [3, 0, 2], [4, 2, 0]] [[0, 3, 4], [3, 0, 2], [4, 2, 0]]
         = Some (Aborted [DemandExceedsCapacity 20 10])"
    by (simp add: solveVRP_def validateProblem_def example_problem_def at_origin_def)
  show "savingsAlgorithmVRP (example_problem [10, 10] 1 10) [[0, 3, 4], [3, 0, 2], [4, 2, 0]]
          = Inr [[0, 1, 0], [0, 2, 0]]"
    by (rule savings_infeasible_example)
qed

lemma validateProblem_overweight_example:
  "validateProblem (example_problem [4, 10] 3 5) = ([], True)"
  by (simp add: validateProblem_def example_problem_def at_origin_def)

lemma solveVRP_overweight_example:
  "solveVRP (example_problem [4, 10] 3 5)
     \<lparr>useNearestNeighbor = True, useSavings = s, use2Opt = t\<rparr>
     [[0, 1, 2], [1, 0, 1], [2, 1, 0]] tm = None"
  by (simp add: solveVRP_def validateProblem_overweight_example run_heuristic_def
      nn_overweight_example)

lemma solveVRP_line_example:
  "solveVRP (example_problem [5, 5, 5] 2 10)
     \<lparr>useNearestNeighbor = True, useSavings = True, use2Opt = False\<rparr>
     [[0, 1, 2, 3], [1, 0, 1, 2], [2, 1, 0, 1], [3, 2, 1, 0]]
     [[0, 1, 2, 3], [1, 0, 1, 2], [2, 1, 0, 1], [3, 2, 1, 0]]
   = Some (Displayed
       [\<lparr>algorithm = nn_label, distance = Num 10, time = Num 10, energy = Num (4 / 5),
         vehicles = 2, routes = [[0, 1, 2, 0], [0, 3, 0]], color = ''#e74c3c''\<rparr>,
        \<lparr>algorithm = savings_label, distance = Num 8, time = Num 8, energy = Num (16 / 25),
         vehicles = 2, routes = [[0, 1, 0], [0, 2, 3, 0]], color = ''#3498db''\<rparr>])"
proof -
  let ?p = "example_problem [5, 5, 5] 2 10"
  let ?m = "[[0, 1, 2, 3], [1, 0, 1, 2], [2, 1, 0, 1], [3, 2, 1, 0::real]]"
  have v: "validateProblem ?p = ([], True)"
    by (simp add: validateProblem_def example_problem_def at_origin_def)
  have fc: "fuelConsumption ?p = Num 8"
    by (simp add: example_problem_def)
  have e1: "evaluateSolution ?p ?m ?m [[0, 1, 2, 0], [0, 3, 0]] nn_label 0
              = Inr \<lparr>algorithm = nn_label, distance = Num 10, time = Num 10,
                     energy = Num (4 / 5), vehicles = 2,
                     routes = [[0, 1, 2, 0], [0, 3, 0]], color = ''#e74c3c''\<rparr>"
    by (simp add: evaluateSolution_def calculateRouteDistance_def calculateRouteTime_def
        calculateRouteEnergy_def cell_def fc vehicleColors_def)
  have e2: "evaluateSolution ?p ?m ?m [[0, 1, 0], [0, 2, 3, 0]] savings_label (Suc 0)
              = Inr \<lparr>algorithm = savings_label, distance = Num 8, time = Num 8,
                     energy = Num (16 / 25), vehicles = 2,
                     routes = [[0, 1, 0], [0, 2, 3, 0]], color = ''#3498db''\<rparr>"
    by (simp add: evaluateSolution_def calculateRouteDistance_def calculateRouteTime_def
        calculateRouteEnergy_def cell_def fc vehicleColors_def)
  show ?thesis
    by (simp add: solveVRP_def v run_heuristic_def nn_line_example savings_line_example e1 e2
        del: One_nat_def)
qed

section \<open>Evaluator: the lists it is given\<close>


















end
